theory Spec2Isabelle
  imports Main "HOL-Library.Sublist"
begin

section \<open>Data model of the process manager\<close>

text \<open>
  The types follow the interfaces at the head of the process manager module:
  \<^verbatim>\<open>ProcStatus\<close>, \<^verbatim>\<open>ProcNodeType\<close>, \<^verbatim>\<open>ProcOwnInternal\<close>, \<^verbatim>\<open>LogLineMain\<close>,
  \<^verbatim>\<open>LogLine\<close>, \<^verbatim>\<open>LogAccumulatedInternal\<close> and \<^verbatim>\<open>ProcNodeInternal\<close>.
  A field typed \<^verbatim>\<open>number | null | undefined\<close> becomes a three-way datatype, an optional
  field an \<open>option\<close>. Exit codes are integers. A \<^verbatim>\<open>Date\<close> is its millisecond count.
\<close>

datatype ProcStatus = waiting | running | killed | finished

datatype ProcNodeType = none | serial | parallel

datatype exit_code = Undefined | Null | Num int

record ProcOwn =
  command :: string
  cwd :: string
  npmPath :: string
  raw :: "nat option"   \<comment> \<open>\<^verbatim>\<open>$raw\<close>: the live child process, identified by its pid\<close>

datatype log_token = Style_tok "nat list" | Print_tok nat

record LogLineMain =
  timestamp :: "nat option"
  read :: bool
  line_id :: int
  content :: "log_token list"

record LogLine =
  title :: string
  main :: LogLineMain

text \<open>
  \<^verbatim>\<open>$unreadLines\<close> is a JavaScript \<^verbatim>\<open>Set\<close> of line objects and \<^verbatim>\<open>$lastLineToTitle\<close> a
  \<^verbatim>\<open>Record\<close> from titles to line objects. Lines are values here, so object identity is
  equality of the line's fields.
\<close>

record LogAccumulated =
  lineCount :: nat
  lines :: "LogLine list"
  unreadLines :: "LogLine list"
  lastLineToTitle :: "string \<rightharpoonup> LogLine"

record LogOwn =
  currentSty :: "nat list"
  currentParser :: "nat list"

record NodeInfo =
  name :: string
  ntype :: ProcNodeType
  procOwn :: "ProcOwn option"
  logOwn :: "LogOwn option"
  status :: ProcStatus
  exitCode :: exit_code
  logAccumulated :: LogAccumulated
  logOmitted :: bool
  ignored :: bool

datatype ProcNode = Node (info: NodeInfo) (children: "ProcNode list")

abbreviation nstatus :: "ProcNode \<Rightarrow> ProcStatus" where
  "nstatus n \<equiv> status (info n)"

abbreviation nexitCode :: "ProcNode \<Rightarrow> exit_code" where
  "nexitCode n \<equiv> exitCode (info n)"

abbreviation nignored :: "ProcNode \<Rightarrow> bool" where
  "nignored n \<equiv> ignored (info n)"

record CreateProcManagerParams =
  forceNoColor :: bool
  enableUnreadMarker :: bool
  historyAlwaysKeepHeadSize :: int
  historyCacheSize :: int

section \<open>Status aggregation in the notify pass\<close>

text \<open>
  \<^verbatim>\<open>Math.max(...xs)\<close> is \<^verbatim>\<open>-Infinity\<close> on no arguments, written \<open>None\<close>.
\<close>

fun math_max :: "int list \<Rightarrow> int option" where
  "math_max [] = None"
| "math_max (x # xs) = Some (case math_max xs of None \<Rightarrow> x | Some m \<Rightarrow> max x m)"

definition all_status :: "ProcStatus \<Rightarrow> ProcStatus list \<Rightarrow> bool" where
  "all_status t statuses = (math_max (map (\<lambda>s. if s = t then 0 else 1) statuses) = Some 0)"

text \<open>The immediately invoked function that yields the new \<^verbatim>\<open>node.status\<close>.\<close>

definition aggregate_status :: "bool \<Rightarrow> ProcStatus list \<Rightarrow> ProcStatus" where
  "aggregate_status has_procOwn statuses =
     (let allKilled = all_status killed statuses;
          allFinished = all_status finished statuses;
          allWaiting = all_status waiting statuses
      in if has_procOwn \<and> allKilled then killed
         else if allFinished then finished
         else if allWaiting then waiting
         else running)"

text \<open>
  JavaScript's \<^verbatim>\<open>a || b\<close> on exit codes: \<^verbatim>\<open>null\<close>, \<^verbatim>\<open>undefined\<close> and \<^verbatim>\<open>0\<close> are falsy.
\<close>

fun truthy :: "exit_code \<Rightarrow> bool" where
  "truthy (Num n) = (n \<noteq> 0)"
| "truthy Null = False"
| "truthy Undefined = False"

definition js_or :: "exit_code \<Rightarrow> exit_code \<Rightarrow> exit_code" where
  "js_or a b = (if truthy a then a else b)"

text \<open>\<^verbatim>\<open>children.reduce((accum, n) => accum || n.exitCode, null)\<close>\<close>

definition aggregate_exitCode :: "ProcNode list \<Rightarrow> exit_code" where
  "aggregate_exitCode cs = foldl (\<lambda>accum n. js_or accum (nexitCode n)) Null cs"

definition nonIgnored :: "ProcNode \<Rightarrow> ProcNode list" where
  "nonIgnored node = filter (\<lambda>child. \<not> nignored child) (children node)"

text \<open>
  The first block of \<^verbatim>\<open>node.$notifyUpdate\<close>: status and exit code are recomputed from
  the children that are not ignored, when there is one.
\<close>

definition recompute :: "ProcNode \<Rightarrow> ProcNode" where
  "recompute node =
     (let cs = nonIgnored node
      in if length cs > 0
         then Node ((info node)\<lparr>
                 status := aggregate_status (procOwn (info node) \<noteq> None) (map nstatus cs),
                 exitCode := aggregate_exitCode cs\<rparr>) (children node)
         else node)"

text \<open>
  The exit code rule in the words of the specification: the first child exit code that is
  neither null nor undefined, left to right (\<open>None\<close> when there is no such child).
\<close>

definition spec_first_defined :: "exit_code list \<Rightarrow> exit_code option" where
  "spec_first_defined codes = find (\<lambda>c. c \<noteq> Null \<and> c \<noteq> Undefined) codes"

section \<open>Serial scheduling\<close>

text \<open>
  \<^verbatim>\<open>$startRunning\<close> begins with \<^verbatim>\<open>node.status = 'running'\<close>; what follows it (the two
  sinks, the spawned process and the notifications it sends) belongs to the process
  runner. The scheduling pass is modelled with that first assignment as the effect on the
  started child, and it records the positions of the children it starts, in order.
\<close>

definition startRunning :: "ProcNode \<Rightarrow> ProcNode" where
  "startRunning node = Node ((info node)\<lparr>status := running\<rparr>) (children node)"

text \<open>
  The \<^verbatim>\<open>for\<close> loop of \<^verbatim>\<open>$checkSerial\<close>. It reads the statuses as they are when the
  pair is reached, so a child started one step earlier is seen as running.
\<close>

function checkSerial_loop :: "nat \<Rightarrow> ProcNode list \<Rightarrow> nat list \<Rightarrow> ProcNode list \<times> nat list" where
  "checkSerial_loop i cs started =
     (if i + 1 < length cs
      then if nstatus (cs ! i) = finished \<and> nstatus (cs ! (i + 1)) = waiting
           then checkSerial_loop (i + 1) (cs[i + 1 := startRunning (cs ! (i + 1))])
                  (started @ [i + 1])
           else checkSerial_loop (i + 1) cs started
      else (cs, started))"
  by pat_completeness auto
termination
  by (relation "measure (\<lambda>(i, cs, started). length cs - i)") auto

declare checkSerial_loop.simps [simp del]

definition checkSerial :: "ProcNode \<Rightarrow> ProcNode \<times> nat list" where
  "checkSerial node =
     (if nstatus node = running \<and> ntype (info node) = serial \<and> length (children node) > 0
      then if nstatus (children node ! 0) = waiting
           then (Node (info node) ((children node)[0 := startRunning (children node ! 0)]), [0])
           else (let (cs, started) = checkSerial_loop 0 (children node) []
                 in (Node (info node) cs, started))
      else (node, []))"

text \<open>The test of the loop body on the pair at positions \<open>i\<close> and \<open>i + 1\<close>.\<close>

definition pairOK :: "ProcNode list \<Rightarrow> nat \<Rightarrow> bool" where
  "pairOK cs i = (nstatus (cs ! i) = finished \<and> nstatus (cs ! (i + 1)) = waiting)"

section \<open>Log merge and history eviction in the notify pass\<close>

text \<open>
  Byte strings are lists of byte values. \<^verbatim>\<open>RESET\<close> and \<^verbatim>\<open>YELLOW\<close> are the escape
  sequences \<^verbatim>\<open>ESC[0m\<close> and \<^verbatim>\<open>ESC[33m\<close> when colour is supported and empty otherwise;
  whether it is depends on the environment, so it is a parameter.
\<close>

definition bytes_of :: "string \<Rightarrow> nat list" where
  "bytes_of s = map of_char s"

definition RESET :: "bool \<Rightarrow> nat list" where
  "RESET isColorSupported = (if isColorSupported then [27, 91, 48, 109] else [])"

definition YELLOW :: "bool \<Rightarrow> nat list" where
  "YELLOW isColorSupported = (if isColorSupported then [27, 91, 51, 51, 109] else [])"

abbreviation nlog :: "ProcNode \<Rightarrow> LogAccumulated" where
  "nlog n \<equiv> logAccumulated (info n)"

subsection \<open>Titles\<close>

text \<open>The decimal rendering of \<^verbatim>\<open>titleCnt\<close> in the template string.\<close>

fun decimal :: "nat \<Rightarrow> string" where
  "decimal n = (if n < 10 then [char_of (48 + n)]
                else decimal (n div 10) @ [char_of (48 + n mod 10)])"

declare decimal.simps [simp del]

text \<open>The title tried after \<open>titleCnt\<close> increments: the name itself, then \<^verbatim>\<open>name(1)\<close>, ...\<close>

definition titleAt :: "string \<Rightarrow> nat \<Rightarrow> string" where
  "titleAt nm titleCnt = (if titleCnt = 0 then nm else nm @ ''('' @ decimal titleCnt @ '')'')"

text \<open>The inverse of the rendering, used for the termination of the title loop only.\<close>

definition undecimal :: "string \<Rightarrow> nat" where
  "undecimal s = foldl (\<lambda>a c. 10 * a + (of_char c - 48)) 0 s"

lemma undecimal_decimal: "undecimal (decimal n) = n"
proof (induction n rule: decimal.induct)
  case (1 n)
  show ?case
  proof (cases "n < 10")
    case True
    then show ?thesis by (simp add: decimal.simps [of n] undecimal_def)
  next
    case False
    with 1 have "undecimal (decimal (n div 10)) = n div 10" by simp
    with False show ?thesis
      by (simp add: decimal.simps [of n] undecimal_def)
  qed
qed

lemma inj_decimal: "inj decimal"
  by (rule inj_on_inverseI [where g = undecimal]) (rule undecimal_decimal)

lemma inj_titleAt: "inj (titleAt nm)"
proof (rule injI)
  fix i j assume eq: "titleAt nm i = titleAt nm j"
  show "i = j"
  proof (cases "i = 0 \<or> j = 0")
    case True
    with eq show ?thesis by (auto simp: titleAt_def split: if_splits)
  next
    case False
    with eq have "decimal i = decimal j" by (simp add: titleAt_def)
    then show ?thesis using inj_decimal by (simp add: inj_def)
  qed
qed

lemma finite_titles: "finite {j. titleAt nm j \<in> set known}"
proof -
  have "{j. titleAt nm j \<in> set known} = titleAt nm -` set known" by auto
  then show ?thesis using finite_vimageI [OF _ inj_titleAt, of "set known" nm] by simp
qed

text \<open>
  The \<^verbatim>\<open>while (knownTitle[title])\<close> loop. \<open>known\<close> holds the keys on which the lookup in
  \<^verbatim>\<open>knownTitle\<close> is truthy.
\<close>

function pickTitle :: "string list \<Rightarrow> string \<Rightarrow> nat \<Rightarrow> string" where
  "pickTitle known nm titleCnt =
     (if titleAt nm titleCnt \<in> set known then pickTitle known nm (titleCnt + 1)
      else titleAt nm titleCnt)"
  by pat_completeness auto
termination
proof (relation "measure (\<lambda>(known, nm, titleCnt). card {j. titleCnt \<le> j \<and> titleAt nm j \<in> set known})")
  show "wf (measure (\<lambda>(known, nm, titleCnt). card {j. titleCnt \<le> j \<and> titleAt nm j \<in> set known}))"
    by simp
next
  fix known :: "string list" and nm :: string and titleCnt :: nat
  assume hit: "titleAt nm titleCnt \<in> set known"
  have fin: "finite {j. titleCnt \<le> j \<and> titleAt nm j \<in> set known}"
    using finite_titles [of nm known] by (rule rev_finite_subset) auto
  have "titleCnt \<in> {j. titleCnt \<le> j \<and> titleAt nm j \<in> set known}"
    using hit by simp
  moreover have "titleCnt \<notin> {j. titleCnt + 1 \<le> j \<and> titleAt nm j \<in> set known}"
    by simp
  moreover have "{j. titleCnt + 1 \<le> j \<and> titleAt nm j \<in> set known} \<subseteq>
        {j. titleCnt \<le> j \<and> titleAt nm j \<in> set known}"
    by auto
  ultimately have "{j. titleCnt + 1 \<le> j \<and> titleAt nm j \<in> set known} \<subset>
        {j. titleCnt \<le> j \<and> titleAt nm j \<in> set known}"
    by blast
  then have "card {j. titleCnt + 1 \<le> j \<and> titleAt nm j \<in> set known} <
             card {j. titleCnt \<le> j \<and> titleAt nm j \<in> set known}"
    using fin by (rule psubset_card_mono [rotated])
  then show "((known, nm, titleCnt + 1), (known, nm, titleCnt)) \<in>
      measure (\<lambda>(known, nm, titleCnt). card {j. titleCnt \<le> j \<and> titleAt nm j \<in> set known})"
    by simp
qed

declare pickTitle.simps [simp del]

text \<open>
  \<^verbatim>\<open>knownTitle\<close> starts as the object literal \<^verbatim>\<open>{}\<close>, whose lookups are already truthy
  on the property names inherited from \<^verbatim>\<open>Object.prototype\<close>.
\<close>

definition objectPrototypeKeys :: "string list" where
  "objectPrototypeKeys =
     [''constructor'', ''__defineGetter__'', ''__defineSetter__'', ''hasOwnProperty'',
      ''__lookupGetter__'', ''__lookupSetter__'', ''isPrototypeOf'', ''propertyIsEnumerable'',
      ''toString'', ''valueOf'', ''__proto__'', ''toLocaleString'']"

subsection \<open>Merging the children's new lines\<close>

datatype error = TypeError | InternalUnreachable | KeymapZeroLength string
  | KeymapConflict string string string

text \<open>
  \<^verbatim>\<open>realLen\<close>: the child's lines without a last line that has no timestamp yet.
\<close>

definition realLen :: "LogLine list \<Rightarrow> nat" where
  "realLen childLines =
     (if length childLines = 0 then 0
      else if timestamp (main (childLines ! (length childLines - 1))) \<noteq> None
           then length childLines
           else length childLines - 1)"

text \<open>
  The backward scan for the line merged last: \<open>scanFrom childLines lastId from\<close> is the
  value of \<^verbatim>\<open>from\<close> when the \<^verbatim>\<open>while\<close> loop stops.
\<close>

fun scanFrom :: "LogLine list \<Rightarrow> int \<Rightarrow> nat \<Rightarrow> nat" where
  "scanFrom childLines lastId 0 = 0"
| "scanFrom childLines lastId (Suc k) =
     (if line_id (main (childLines ! k)) \<noteq> - 1 \<and> line_id (main (childLines ! k)) \<noteq> lastId
      then scanFrom childLines lastId k
      else Suc k)"

text \<open>\<^verbatim>\<open>xs.slice(a, b)\<close> for \<open>0 \<le> a\<close> and \<open>0 \<le> b\<close>.\<close>

definition slice :: "nat \<Rightarrow> nat \<Rightarrow> 'a list \<Rightarrow> 'a list" where
  "slice a b xs = take (b - a) (drop a xs)"

text \<open>
  The body of \<^verbatim>\<open>for (const child of children)\<close>, with the four variables it updates:
  the truthy keys of \<^verbatim>\<open>knownTitle\<close>, \<^verbatim>\<open>lineCount\<close>, \<^verbatim>\<open>beingAdded\<close> and
  \<^verbatim>\<open>$lastLineToTitle\<close>.
\<close>

fun mergeChildren ::
  "ProcNode list \<Rightarrow> string list \<Rightarrow> nat \<Rightarrow> LogLine list \<Rightarrow> (string \<rightharpoonup> LogLine) \<Rightarrow>
   nat \<times> LogLine list \<times> (string \<rightharpoonup> LogLine)" where
  "mergeChildren [] known cnt beingAdded lastOf = (cnt, beingAdded, lastOf)"
| "mergeChildren (child # rest) known cnt beingAdded lastOf =
     (let cnt' = cnt + lineCount (nlog child);
          title = pickTitle known (name (info child)) 0;
          known' = title # known;
          childLines = lines (nlog child);
          n = realLen childLines
      in if n > 0
         then (let from = (case lastOf title of
                             None \<Rightarrow> 0
                           | Some lastLine \<Rightarrow> scanFrom childLines (line_id (main lastLine)) n)
               in mergeChildren rest known' cnt'
                    (beingAdded @ map (\<lambda>e. \<lparr>title = title, main = main e\<rparr>) (slice from n childLines))
                    (lastOf(title \<mapsto> childLines ! (n - 1))))
         else mergeChildren rest known' cnt' beingAdded lastOf)"

text \<open>
  \<^verbatim>\<open>beingAdded.sort\<close> by commit time. The sort is stable. The comparator reads
  \<^verbatim>\<open>timestamp!.getTime()\<close> and is called as soon as there are two lines, so a line
  without timestamp among two or more raises a \<^verbatim>\<open>TypeError\<close>.
\<close>

definition sortByTimestamp :: "LogLine list \<Rightarrow> error + LogLine list" where
  "sortByTimestamp ls =
     (if length ls \<ge> 2 \<and> (\<exists>l \<in> set ls. timestamp (main l) = None) then Inl TypeError
      else Inr (sort_key (\<lambda>l. the (timestamp (main l))) ls))"

definition setAdd :: "'a \<Rightarrow> 'a list \<Rightarrow> 'a list" where
  "setAdd x xs = (if x \<in> set xs then xs else xs @ [x])"

definition mergeLogs :: "CreateProcManagerParams \<Rightarrow> ProcNode \<Rightarrow> error + ProcNode" where
  "mergeLogs cfg node =
     (let cs = nonIgnored node
      in if length cs > 0
         then (case mergeChildren cs objectPrototypeKeys 0 [] (lastLineToTitle (nlog node)) of
                 (cnt, beingAdded, lastOf) \<Rightarrow>
                   (case sortByTimestamp beingAdded of
                      Inl e \<Rightarrow> Inl e
                    | Inr beingAddedSorted \<Rightarrow>
                        Inr (Node ((info node)\<lparr>logAccumulated := (nlog node)\<lparr>
                               lineCount := cnt,
                               lines := lines (nlog node) @ beingAddedSorted,
                               unreadLines :=
                                 (if enableUnreadMarker cfg
                                  then fold setAdd beingAddedSorted (unreadLines (nlog node))
                                  else unreadLines (nlog node)),
                               lastLineToTitle := lastOf\<rparr>\<rparr>) (children node))))
         else Inr node)"

subsection \<open>Wiping out the history\<close>

definition headSize :: "CreateProcManagerParams \<Rightarrow> nat" where
  "headSize cfg = nat (max 0 (historyAlwaysKeepHeadSize cfg))"

definition tailSize :: "CreateProcManagerParams \<Rightarrow> nat" where
  "tailSize cfg = nat (max 1 (historyCacheSize cfg + 1))"

text \<open>The synthetic line spliced in between head and tail.\<close>

definition historyDropped :: "bool \<Rightarrow> LogLine" where
  "historyDropped isColorSupported =
     \<lparr>title = ''[NOTIOS]'',
      main = \<lparr>timestamp = Some 0, read = True, line_id = - 1,
              content = Style_tok (RESET isColorSupported @ YELLOW isColorSupported)
                # map Print_tok (bytes_of ''[NOTIOS] HISTORY DROPPED'')
                @ [Style_tok (RESET isColorSupported)]\<rparr>\<rparr>"

text \<open>
  \<^verbatim>\<open>tail.slice(0, -tailSize)\<close> and \<^verbatim>\<open>tail.slice(-tailSize)\<close>, for \<open>tailSize \<ge> 1\<close>.
\<close>

definition wipeHistory :: "CreateProcManagerParams \<Rightarrow> bool \<Rightarrow> ProcNode \<Rightarrow> ProcNode" where
  "wipeHistory cfg isColorSupported node =
     (let ls = lines (nlog node)
      in if length ls > headSize cfg + tailSize cfg
         then (let head = slice 0 (headSize cfg) ls;
                   tail = drop (headSize cfg) ls;
                   dropped = take (length tail - tailSize cfg) tail;
                   tail' = drop (length tail - tailSize cfg) tail
               in Node ((info node)\<lparr>
                    logOmitted := True,
                    logAccumulated := (nlog node)\<lparr>
                      unreadLines :=
                        (if enableUnreadMarker cfg
                         then filter (\<lambda>l. l \<notin> set dropped) (unreadLines (nlog node))
                         else unreadLines (nlog node)),
                      lines := head @ [historyDropped isColorSupported] @ tail'\<rparr>\<rparr>)
                    (children node))
         else node)"

text \<open>
  The part of \<^verbatim>\<open>node.$notifyUpdate\<close> that works on the node's own log: the merge of the
  children's new lines, then the wipe. (The parent's pass runs between the two.)
\<close>

definition notifyLog :: "CreateProcManagerParams \<Rightarrow> bool \<Rightarrow> ProcNode \<Rightarrow> error + ProcNode" where
  "notifyLog cfg isColorSupported node =
     (case mergeLogs cfg node of
        Inl e \<Rightarrow> Inl e
      | Inr node' \<Rightarrow> Inr (wipeHistory cfg isColorSupported node'))"

text \<open>
  A map of last merged lines is settled for a list of children when it holds, for each
  child that has a committed line, that child's last committed line under the child's title.
\<close>

fun settled :: "(string \<rightharpoonup> LogLine) \<Rightarrow> string list \<Rightarrow> ProcNode list \<Rightarrow> bool" where
  "settled lastOf known [] = True"
| "settled lastOf known (child # rest) =
     (let title = pickTitle known (name (info child)) 0;
          n = realLen (lines (nlog child))
      in (0 < n \<longrightarrow> lastOf title = Some (lines (nlog child) ! (n - 1))) \<and>
         settled lastOf (title # known) rest)"

subsection \<open>Example logs\<close>

definition exLine :: "int \<Rightarrow> nat \<Rightarrow> LogLine" where
  "exLine i ts = \<lparr>title = [], main = \<lparr>timestamp = Some ts, read = False, line_id = i,
                                        content = [Print_tok 97]\<rparr>\<rparr>"

definition exSink :: "string \<Rightarrow> LogLine list \<Rightarrow> ProcNode" where
  "exSink nm ls =
     Node \<lparr>name = nm, ntype = none, procOwn = None,
           logOwn = Some \<lparr>currentSty = [], currentParser = []\<rparr>,
           status = running, exitCode = Undefined,
           logAccumulated = \<lparr>lineCount = length ls, lines = ls, unreadLines = [],
                             lastLineToTitle = Map.empty\<rparr>,
           logOmitted = False, ignored = False\<rparr> []"

definition exCfg :: CreateProcManagerParams where
  "exCfg = \<lparr>forceNoColor = False, enableUnreadMarker = True,
            historyAlwaysKeepHeadSize = 0, historyCacheSize = 0\<rparr>"


section \<open>Appending process output to a node's log\<close>

text \<open>
  The stream decoder and the style functions are imported from outside this module, so
  they are parameters: \<^verbatim>\<open>decodeAnsiBytes\<close> turns bytes into actions from a parser state,
  \<^verbatim>\<open>applyActionToSty\<close> folds a style action into the style state and \<^verbatim>\<open>restoreSty\<close>
  renders a style state as bytes. Parser and style states are kept as opaque byte lists.
\<close>

datatype ansi_action = ActPrint nat | ActControll nat | ActStyle "nat list"

record Ansi =
  decodeAnsiBytes :: "nat list \<Rightarrow> nat list \<Rightarrow> nat list \<times> ansi_action list"
  applyActionToSty :: "nat list \<Rightarrow> ansi_action \<Rightarrow> nat list"
  restoreSty :: "nat list \<Rightarrow> nat list"

text \<open>
  A line object is reachable from \<^verbatim>\<open>lines\<close>, from \<^verbatim>\<open>$unreadLines\<close> and from
  \<^verbatim>\<open>$lastLineToTitle\<close>. A change of the last line is a change of that one object, so the
  copies equal to it are replaced with it.
\<close>

definition updLast :: "(LogLineMain \<Rightarrow> LogLineMain) \<Rightarrow> LogAccumulated \<Rightarrow> LogAccumulated" where
  "updLast f la =
     (let l = last (lines la);
          l' = l\<lparr>main := f (main l)\<rparr>
      in la\<lparr>lines := butlast (lines la) @ [l'],
            unreadLines := map (\<lambda>x. if x = l then l' else x) (unreadLines la),
            lastLineToTitle := (\<lambda>t. map_option (\<lambda>x. if x = l then l' else x) (lastLineToTitle la t))\<rparr>)"

text \<open>Pushing a fresh line without timestamp, whose id is the current \<^verbatim>\<open>lineCount\<close>.\<close>

definition pushLine :: "CreateProcManagerParams \<Rightarrow> log_token list \<Rightarrow> LogAccumulated \<Rightarrow> LogAccumulated" where
  "pushLine cfg cont la =
     (let logLine = \<lparr>title = [], main = \<lparr>timestamp = None, read = False,
                        line_id = int (lineCount la), content = cont\<rparr>\<rparr>
      in la\<lparr>lines := lines la @ [logLine],
            unreadLines := (if enableUnreadMarker cfg then setAdd logLine (unreadLines la)
                            else unreadLines la),
            lastLineToTitle := (lastLineToTitle la)([] \<mapsto> logLine)\<rparr>)"

text \<open>\<^verbatim>\<open>checkTimestamp(lastLine)\<close>, at time \<open>now\<close>.\<close>

definition checkTimestamp :: "nat \<Rightarrow> LogAccumulated \<Rightarrow> LogAccumulated" where
  "checkTimestamp now la =
     (if timestamp (main (last (lines la))) = None
      then (updLast (\<lambda>m. m\<lparr>timestamp := Some now\<rparr>) la)\<lparr>lineCount := lineCount la + 1\<rparr>
      else la)"

definition pushContent :: "log_token \<Rightarrow> LogAccumulated \<Rightarrow> LogAccumulated" where
  "pushContent tok la = updLast (\<lambda>m. m\<lparr>content := content m @ [tok]\<rparr>) la"

text \<open>
  One turn of \<^verbatim>\<open>for (const action of actions)\<close> on the style state and the log. Tab is
  byte 9 and newline byte 10.
\<close>

definition appendAction ::
  "Ansi \<Rightarrow> CreateProcManagerParams \<Rightarrow> nat \<Rightarrow> ansi_action \<Rightarrow> nat list \<times> LogAccumulated \<Rightarrow>
   nat list \<times> LogAccumulated" where
  "appendAction ext cfg now action st =
     (let sty = fst st;
          la = (if length (lines (snd st)) = 0 then pushLine cfg [] (snd st) else snd st)
      in case action of
           ActPrint byte \<Rightarrow> (sty, pushContent (Print_tok byte) (checkTimestamp now la))
         | ActControll ch \<Rightarrow>
             (if ch = 9 then (sty, pushContent (Print_tok 32) (checkTimestamp now la))
              else if ch = 10
              then (sty, pushLine cfg [Style_tok (restoreSty ext sty)] (checkTimestamp now la))
              else (sty, la))
         | ActStyle ps \<Rightarrow>
             (let sty' = applyActionToSty ext sty action
              in (sty', pushContent (Style_tok (restoreSty ext sty')) la)))"

definition appendLogToNode ::
  "Ansi \<Rightarrow> CreateProcManagerParams \<Rightarrow> nat \<Rightarrow> nat list \<Rightarrow> ProcNode \<Rightarrow> error + ProcNode" where
  "appendLogToNode ext cfg now newLog node =
     (case logOwn (info node) of
        None \<Rightarrow> Inl InternalUnreachable
      | Some lo \<Rightarrow>
          (case decodeAnsiBytes ext (currentParser lo) newLog of
             (newParser, actions) \<Rightarrow>
               (case fold (appendAction ext cfg now) actions (currentSty lo, nlog node) of
                  (sty, la) \<Rightarrow>
                    Inr (Node ((info node)\<lparr>
                           logOwn := Some \<lparr>currentSty = sty, currentParser = newParser\<rparr>,
                           logAccumulated := la\<rparr>) (children node)))))"

section \<open>The notify pass on one node\<close>

text \<open>
  \<^verbatim>\<open>node.$notifyUpdate\<close> on the node itself: status and exit code, the serial scheduling,
  the merge of the children's new lines and the wipe of the history. The call of the
  parent's pass and the listeners are not part of the node's state.
\<close>

definition notifyOwn :: "CreateProcManagerParams \<Rightarrow> bool \<Rightarrow> ProcNode \<Rightarrow> error + ProcNode" where
  "notifyOwn cfg isColorSupported node =
     notifyLog cfg isColorSupported (fst (checkSerial (recompute node)))"

text \<open>What the merge reads of a child: its name, its ignored flag and its log.\<close>

definition logView :: "ProcNode \<Rightarrow> string \<times> bool \<times> LogAccumulated" where
  "logView c = (name (info c), nignored c, nlog c)"

definition logEq :: "ProcNode \<Rightarrow> ProcNode \<Rightarrow> bool" where
  "logEq a b = (nlog a = nlog b \<and> map logView (children a) = map logView (children b))"




text \<open>A decoder without escape sequences, for the examples.\<close>

definition plainAnsi :: Ansi where
  "plainAnsi =
     \<lparr>decodeAnsiBytes = (\<lambda>parser bytes.
          (parser, map (\<lambda>b. if b = 9 \<or> b = 10 then ActControll b else ActPrint b) bytes)),
      applyActionToSty = (\<lambda>sty action. sty),
      restoreSty = (\<lambda>sty. [])\<rparr>"

section \<open>Killing a process and the exit of a process\<close>

definition setStatus :: "ProcStatus \<Rightarrow> ProcNode \<Rightarrow> ProcNode" where
  "setStatus st node = Node ((info node)\<lparr>status := st\<rparr>) (children node)"

text \<open>The bytes of \<^verbatim>\<open>`\n${RESET}${YELLOW}[NOTIOS] MANUALLY KILLED${RESET}\n`\<close>.\<close>

definition killMessage :: "bool \<Rightarrow> nat list" where
  "killMessage isColorSupported =
     [10] @ RESET isColorSupported @ YELLOW isColorSupported
       @ bytes_of ''[NOTIOS] MANUALLY KILLED'' @ RESET isColorSupported @ [10]"

text \<open>
  \<^verbatim>\<open>killNode\<close>. The argument may be null or undefined (\<open>None\<close>). The signal sent by
  \<^verbatim>\<open>crossKill\<close> leaves the tree as it is. Reading \<^verbatim>\<open>children[0]\<close> or \<^verbatim>\<open>children[1]\<close> of
  a node with fewer children raises a \<^verbatim>\<open>TypeError\<close>. The result is the node after its
  own notify pass.
\<close>

definition killNode ::
  "Ansi \<Rightarrow> CreateProcManagerParams \<Rightarrow> bool \<Rightarrow> nat \<Rightarrow> ProcNode option \<Rightarrow> error + ProcNode option" where
  "killNode ext cfg c now node =
     (case node of
        None \<Rightarrow> Inr None
      | Some inode \<Rightarrow>
          (case procOwn (info inode) of
             None \<Rightarrow> Inr (Some inode)
           | Some po \<Rightarrow>
               (case raw po of
                  None \<Rightarrow> Inr (Some inode)
                | Some pid \<Rightarrow>
                    if nstatus inode \<noteq> running then Inr (Some inode)
                    else if length (children inode) < 2 then Inl TypeError
                    else (case appendLogToNode ext cfg now (killMessage c)
                                 (setStatus killed (children inode ! 0)) of
                            Inl e \<Rightarrow> Inl e
                          | Inr out \<Rightarrow>
                              (case notifyOwn cfg c
                                      (Node ((info inode)\<lparr>procOwn := Some (po\<lparr>raw := None\<rparr>),
                                                          status := killed\<rparr>)
                                         (out # setStatus killed (children inode ! 1)
                                            # drop 2 (children inode))) of
                                 Inl e \<Rightarrow> Inl e
                               | Inr inode' \<Rightarrow> Inr (Some inode'))))))"

text \<open>The printable bytes of a line.\<close>

fun printable :: "log_token list \<Rightarrow> nat list" where
  "printable [] = []"
| "printable (Print_tok b # ts) = b # printable ts"
| "printable (Style_tok bs # ts) = printable ts"

text \<open>
  A notify pass that starts at child \<open>i\<close> of a node: the child's pass up to its merge, the
  node's own pass, then the child's wipe.
\<close>

definition notifyChild :: "CreateProcManagerParams \<Rightarrow> bool \<Rightarrow> nat \<Rightarrow> ProcNode \<Rightarrow> error + ProcNode" where
  "notifyChild cfg c i node =
     (case mergeLogs cfg (fst (checkSerial (recompute (children node ! i)))) of
        Inl e \<Rightarrow> Inl e
      | Inr child \<Rightarrow>
          (case notifyOwn cfg c (Node (info node) ((children node)[i := child])) of
             Inl e \<Rightarrow> Inl e
           | Inr node' \<Rightarrow>
               Inr (Node (info node')
                      ((children node')[i := wipeHistory cfg c (children node' ! i)]))))"

text \<open>
  The \<^verbatim>\<open>exit\<close> listener that \<^verbatim>\<open>$startRunning\<close> registers, for the node whose first two
  children are the sinks \<^verbatim>\<open>nodeStdout\<close> and \<^verbatim>\<open>nodeStderr\<close> of that start.
\<close>

definition exitSink :: "exit_code \<Rightarrow> ProcNode \<Rightarrow> ProcNode" where
  "exitSink code sink =
     Node ((info sink)\<lparr>status := (if nstatus sink = running then finished else nstatus sink),
                       exitCode := code\<rparr>) (children sink)"

definition onExit :: "CreateProcManagerParams \<Rightarrow> bool \<Rightarrow> exit_code \<Rightarrow> ProcNode \<Rightarrow> error + ProcNode" where
  "onExit cfg c code node =
     (case notifyChild cfg c 0
             (Node (info node) (exitSink code (children node ! 0) # exitSink code (children node ! 1)
                                  # drop 2 (children node))) of
        Inl e \<Rightarrow> Inl e
      | Inr node' \<Rightarrow> notifyChild cfg c 1 node')"

text \<open>All lines of a log but the last have their timestamp.\<close>

definition committed :: "LogLine list \<Rightarrow> bool" where
  "committed ls = (\<forall>x \<in> set (butlast ls). timestamp (main x) \<noteq> None)"

text \<open>
  The guards of \<^verbatim>\<open>killNode\<close>: a node with a process identity, a live handle and status
  running. A node is settled as killed when it owns a process identity, is killed, and
  each of its children is ignored or killed.
\<close>

definition killable :: "ProcNode option \<Rightarrow> bool" where
  "killable node =
     (case node of
        None \<Rightarrow> False
      | Some inode \<Rightarrow>
          (case procOwn (info inode) of
             None \<Rightarrow> False
           | Some po \<Rightarrow> raw po \<noteq> None \<and> nstatus inode = running))"

definition settledKilled :: "ProcNode \<Rightarrow> bool" where
  "settledKilled n =
     (procOwn (info n) \<noteq> None \<and> nstatus n = killed \<and>
      (\<forall>ch \<in> set (children n). nignored ch \<or> nstatus ch = killed))"

section \<open>Marking a node as read\<close>

text \<open>
  The inner function of \<^verbatim>\<open>markNodeAsRead\<close>: every line of the unread set gets its read
  flag, the set is cleared, and the same is done for the children.
\<close>

definition markLog :: "LogAccumulated \<Rightarrow> LogAccumulated" where
  "markLog la =
     (let mark = (\<lambda>l. if l \<in> set (unreadLines la) then l\<lparr>main := (main l)\<lparr>read := True\<rparr>\<rparr> else l)
      in la\<lparr>lines := map mark (lines la),
            lastLineToTitle := (\<lambda>t. map_option mark (lastLineToTitle la t)),
            unreadLines := []\<rparr>)"

fun markInternal :: "ProcNode \<Rightarrow> ProcNode" where
  "markInternal (Node i cs) = Node (i\<lparr>logAccumulated := markLog (logAccumulated i)\<rparr>) (map markInternal cs)"

text \<open>
  \<^verbatim>\<open>markNodeAsRead\<close> returns the node and the number of notify passes it has started; a
  pass is what invokes the update listeners.
\<close>

definition markNodeAsRead ::
  "CreateProcManagerParams \<Rightarrow> bool \<Rightarrow> ProcNode option \<Rightarrow> error + ProcNode option \<times> nat" where
  "markNodeAsRead cfg c node =
     (if \<not> enableUnreadMarker cfg then Inr (node, 0)
      else case node of
             None \<Rightarrow> Inr (None, 0)
           | Some inode \<Rightarrow>
               (case notifyOwn cfg c (markInternal inode) of
                  Inl e \<Rightarrow> Inl e
                | Inr inode' \<Rightarrow> Inr (Some inode', 1)))"

definition exUnread :: ProcNode where
  "exUnread =
     Node \<lparr>name = ''<out>'', ntype = none, procOwn = None,
           logOwn = Some \<lparr>currentSty = [], currentParser = []\<rparr>,
           status = running, exitCode = Undefined,
           logAccumulated = \<lparr>lineCount = 1, lines = [exLine 0 5], unreadLines = [exLine 0 5],
                             lastLineToTitle = Map.empty\<rparr>,
           logOmitted = False, ignored = False\<rparr> []"

section \<open>Keymapping trie\<close>

text \<open>
  A key of the configuration is a character key with its three modifiers or a special key
  with its two; a modifier that is left out counts as false. An entry of an action is one
  key or a sequence of keys.
\<close>

datatype NotiosConfigKeymapping =
    KChar (char_of_key: string) (kctrl: bool) (kmeta: bool) (kshift: bool)
  | KSpecial (special_of_key: string) (sctrl: bool) (sshift: bool)

datatype NotiosConfigKeymappingRoot = Single NotiosConfigKeymapping | Seq "NotiosConfigKeymapping list"

text \<open>
  \<^verbatim>\<open>KeymappingNode\<close>: the children, a \<^verbatim>\<open>Map\<close> in insertion order, and the optional action.
\<close>

datatype KeymappingNode =
  KeymappingNode (kchildren: "(string \<times> KeymappingNode) list") (kaction: "string option")

definition flag :: "bool \<Rightarrow> char \<Rightarrow> string" where
  "flag b ch = (if b then [ch] else ''-'')"

fun keymappingToString :: "NotiosConfigKeymapping \<Rightarrow> string" where
  "keymappingToString (KChar ch ctrl meta shift) =
     ch @ flag ctrl CHR ''c'' @ flag meta CHR ''m'' @ flag shift CHR ''s''"
| "keymappingToString (KSpecial special ctrl shift) =
     special @ '';'' @ flag ctrl CHR ''c'' @ flag shift CHR ''s''"

fun keymappingToRepr :: "NotiosConfigKeymapping \<Rightarrow> string" where
  "keymappingToRepr (KChar ch ctrl meta shift) =
     (if ctrl then ''C-'' else []) @ (if meta then ''M-'' else []) @ (if shift then ''S-'' else [])
       @ (if ch = '' '' then ''<SPACE>'' else ch)"
| "keymappingToRepr (KSpecial special ctrl shift) =
     (if ctrl then ''C-'' else []) @ (if shift then ''S-'' else []) @ special"

fun toSeq :: "NotiosConfigKeymappingRoot \<Rightarrow> NotiosConfigKeymapping list" where
  "toSeq (Seq seq) = seq"
| "toSeq (Single keymapping) = [keymapping]"

text \<open>\<^verbatim>\<open>xs.join(' ')\<close>\<close>

fun join :: "string list \<Rightarrow> string" where
  "join [] = []"
| "join [x] = x"
| "join (x # y # ys) = x @ '' '' @ join (y # ys)"

text \<open>\<^verbatim>\<open>Map.prototype.set\<close>: a known key keeps its place, a new key goes to the end.\<close>

fun mapSet :: "'k \<Rightarrow> 'v \<Rightarrow> ('k \<times> 'v) list \<Rightarrow> ('k \<times> 'v) list" where
  "mapSet k v [] = [(k, v)]"
| "mapSet k v ((k', v') # rest) = (if k = k' then (k, v) # rest else (k', v') # mapSet k v rest)"

text \<open>
  The flattened pairs of action and sequence, sorted by the length of the sequence; the
  sort is stable. An action whose value is null or undefined (\<open>None\<close>) is dropped.
\<close>

definition seqEntries ::
  "(string \<times> NotiosConfigKeymappingRoot list option) list \<Rightarrow>
   (string \<times> NotiosConfigKeymapping list) list" where
  "seqEntries actionKeymappings =
     concat (map (\<lambda>(action, actionKeymapping).
        case actionKeymapping of
          None \<Rightarrow> []
        | Some ks \<Rightarrow> map (\<lambda>keymapping. (action, toSeq keymapping)) ks) actionKeymappings)"

definition sortedSeqEntries ::
  "(string \<times> NotiosConfigKeymappingRoot list option) list \<Rightarrow>
   (string \<times> NotiosConfigKeymapping list) list" where
  "sortedSeqEntries actionKeymappings =
     sort_key (\<lambda>(action, seq). length seq) (seqEntries actionKeymappings)"

text \<open>
  The inner loop \<^verbatim>\<open>for (const one of seq)\<close> with \<^verbatim>\<open>cur\<close> at the given node, followed by
  \<^verbatim>\<open>cur.action = action\<close>. The node that is returned is the given node after the walk.
\<close>

fun insertSeq :: "string \<Rightarrow> string \<Rightarrow> string list \<Rightarrow> KeymappingNode \<Rightarrow> error + KeymappingNode" where
  "insertSeq action repr [] cur = Inr (KeymappingNode (kchildren cur) (Some action))"
| "insertSeq action repr (key # keys) cur =
     (let child = (case map_of (kchildren cur) key of
                     None \<Rightarrow> KeymappingNode [] None
                   | Some c \<Rightarrow> c)
      in case kaction child of
           Some other \<Rightarrow> Inl (KeymapConflict action repr other)
         | None \<Rightarrow>
             (case insertSeq action repr keys child of
                Inl e \<Rightarrow> Inl e
              | Inr child' \<Rightarrow> Inr (KeymappingNode (mapSet key child' (kchildren cur)) (kaction cur))))"

text \<open>The loop \<^verbatim>\<open>for (const [action, seq] of sortedSeqEntries)\<close>.\<close>

fun insertAll :: "(string \<times> NotiosConfigKeymapping list) list \<Rightarrow> KeymappingNode \<Rightarrow> error + KeymappingNode" where
  "insertAll [] trie = Inr trie"
| "insertAll ((action, seq) # rest) trie =
     (if length seq = 0 then Inl (KeymapZeroLength action)
      else case insertSeq action (join (map keymappingToRepr seq)) (map keymappingToString seq) trie of
             Inl e \<Rightarrow> Inl e
           | Inr trie' \<Rightarrow> insertAll rest trie')"

definition constructKeymapping ::
  "(string \<times> NotiosConfigKeymappingRoot list option) list \<Rightarrow> error + KeymappingNode" where
  "constructKeymapping actionKeymappings =
     insertAll (sortedSeqEntries actionKeymappings) (KeymappingNode [] None)"

text \<open>
  The node reached from a node along a list of tokens, and the action bound there.
\<close>

fun descend :: "KeymappingNode \<Rightarrow> string list \<Rightarrow> KeymappingNode option" where
  "descend t [] = Some t"
| "descend t (k # ks) = (case map_of (kchildren t) k of None \<Rightarrow> None | Some c \<Rightarrow> descend c ks)"

definition bound :: "KeymappingNode \<Rightarrow> string list \<Rightarrow> string option" where
  "bound t p = (case descend t p of None \<Rightarrow> None | Some n \<Rightarrow> kaction n)"


subsection \<open>Matching\<close>

text \<open>
  A key event of the terminal layer: the three modifiers and the names of the special
  keys whose flag is set. The list \<^verbatim>\<open>specialKeyNames\<close> is imported from the configuration
  library and is a parameter.
\<close>

record Key =
  ctrl :: bool
  meta :: bool
  shift :: bool
  pressed :: "string list"

definition startsWith :: "string \<Rightarrow> string \<Rightarrow> bool" where
  "startsWith s p = prefix p s"

definition endsWith :: "string \<Rightarrow> string \<Rightarrow> bool" where
  "endsWith s p = suffix p s"

text \<open>
  The two wheel patterns, \<^verbatim>\<open>/^\[B(?:\x1b\[B)+$/\<close> for \<open>ch = B\<close>: the group \<^verbatim>\<open>[B\<close>, then
  one or more groups \<^verbatim>\<open>ESC [B\<close>.
\<close>

definition wheelPattern :: "char \<Rightarrow> string \<Rightarrow> bool" where
  "wheelPattern ch input =
     (startsWith input [CHR ''['', ch] \<and>
      (let rest = drop 2 input
       in rest \<noteq> [] \<and> rest = concat (replicate (length rest div 3) [CHR 0x1B, CHR ''['', ch])))"

text \<open>\<^verbatim>\<open>toLowerCase\<close> on the letters of ASCII.\<close>

definition toLowerCase :: "string \<Rightarrow> string" where
  "toLowerCase s =
     map (\<lambda>ch. if (65::nat) \<le> of_char ch \<and> of_char ch \<le> (90::nat)
                then char_of (of_char ch + (32::nat)) else ch) s"

text \<open>The token \<^verbatim>\<open>k\<close> of \<^verbatim>\<open>matchKeymapping\<close>.\<close>

definition keyToken :: "string list \<Rightarrow> string \<Rightarrow> Key \<Rightarrow> string" where
  "keyToken specialKeyNames input key =
     (let ctrl2 = (startsWith input ''[1;5'' \<or> startsWith input ''[1;6'');
          shift2 = (startsWith input ''[1;2'' \<or> startsWith input ''[1;6'')
      in if wheelPattern CHR ''B'' input then keymappingToString (KSpecial ''upWheel'' False False)
         else if wheelPattern CHR ''A'' input then keymappingToString (KSpecial ''downWheel'' False False)
         else if input = ''[1~'' then keymappingToString (KSpecial ''home'' ctrl2 shift2)
         else if input = ''[4~'' then keymappingToString (KSpecial ''end'' ctrl2 shift2)
         else if input = ''[5;2~'' then keymappingToString (KSpecial ''pageUp'' ctrl2 True)
         else if input = ''[6;2~'' then keymappingToString (KSpecial ''pageDown'' ctrl2 True)
         else if input = ''[5;6~'' then keymappingToString (KSpecial ''pageUp'' True True)
         else if input = ''[6;6~'' then keymappingToString (KSpecial ''pageDown'' True True)
         else if (ctrl2 \<or> shift2) \<and> endsWith input ''H''
           then keymappingToString (KSpecial ''home'' ctrl2 shift2)
         else if (ctrl2 \<or> shift2) \<and> endsWith input ''F''
           then keymappingToString (KSpecial ''end'' ctrl2 shift2)
         else if (ctrl2 \<or> shift2) \<and> endsWith input ''D''
           then keymappingToString (KSpecial ''leftArrow'' ctrl2 shift2)
         else if (ctrl2 \<or> shift2) \<and> endsWith input ''B''
           then keymappingToString (KSpecial ''downArrow'' ctrl2 shift2)
         else if (ctrl2 \<or> shift2) \<and> endsWith input ''C''
           then keymappingToString (KSpecial ''rightArrow'' ctrl2 shift2)
         else if (ctrl2 \<or> shift2) \<and> endsWith input ''A''
           then keymappingToString (KSpecial ''upArrow'' ctrl2 shift2)
         else case find (\<lambda>specialKeyName. specialKeyName \<in> set (pressed key)) specialKeyNames of
                Some specialKeyName \<Rightarrow>
                  if specialKeyName = ''tab''
                    then keymappingToString (KSpecial specialKeyName False (shift key))
                  else if specialKeyName = ''delete'' \<or> specialKeyName = ''backspace''
                          \<or> specialKeyName = ''return''
                    then keymappingToString (KSpecial specialKeyName False False)
                  else keymappingToString (KSpecial specialKeyName (ctrl key) (shift key))
              | None \<Rightarrow>
                  keymappingToString (KChar (toLowerCase input) (ctrl key) (meta key) (shift key)))"

text \<open>\<^verbatim>\<open>matchKeymapping\<close>: the pair of the next node and the matched action.\<close>

definition matchKeymapping ::
  "string list \<Rightarrow> KeymappingNode \<Rightarrow> string \<Rightarrow> Key \<Rightarrow> KeymappingNode option \<times> string option" where
  "matchKeymapping specialKeyNames trie input key =
     (let k = keyToken specialKeyNames input key
      in case map_of (kchildren trie) k of
           None \<Rightarrow> (None, None)
         | Some next \<Rightarrow>
             (case kaction next of
                Some a \<Rightarrow> (None, Some a)
              | None \<Rightarrow> (Some next, None)))"

text \<open>
  The input handler of \<^verbatim>\<open>useAction\<close> on the position \<^verbatim>\<open>cur\<close>, for the trie \<open>root\<close>: the
  new position and the action whose implementation is called, if any. Each keystroke is
  handled after the position set by the one before it is in place.
\<close>

definition onInput ::
  "string list \<Rightarrow> bool \<Rightarrow> KeymappingNode \<Rightarrow> KeymappingNode \<Rightarrow> string \<Rightarrow> Key \<Rightarrow>
   KeymappingNode \<times> string option" where
  "onInput specialKeyNames disabled root cur input key =
     (if disabled then (cur, None)
      else case matchKeymapping specialKeyNames cur input key of
             (next, matched) \<Rightarrow> ((case next of Some n \<Rightarrow> n | None \<Rightarrow> root), matched))"

text \<open>A run of keystrokes from a position, with the actions fired, in order.\<close>

fun runKeys ::
  "string list \<Rightarrow> KeymappingNode \<Rightarrow> KeymappingNode \<Rightarrow> (string \<times> Key) list \<Rightarrow>
   KeymappingNode \<times> string list" where
  "runKeys specialKeyNames root cur [] = (cur, [])"
| "runKeys specialKeyNames root cur ((input, key) # rest) =
     (case onInput specialKeyNames False root cur input key of
        (cur', fired) \<Rightarrow>
          (case runKeys specialKeyNames root cur' rest of
             (final, later) \<Rightarrow> (final, (case fired of None \<Rightarrow> [] | Some a \<Rightarrow> [a]) @ later)))"

subsection \<open>Example keymappings\<close>

definition keyG :: NotiosConfigKeymapping where
  "keyG = KChar ''g'' False False False"

definition keyX :: NotiosConfigKeymapping where
  "keyX = KChar ''x'' False False False"

definition exGG :: "(string \<times> NotiosConfigKeymappingRoot list option) list" where
  "exGG = [(''B'', Some [Seq [keyG, keyG]]), (''A'', Some [Single keyG])]"

definition exZero :: "(string \<times> NotiosConfigKeymappingRoot list option) list" where
  "exZero = [(''C'', Some [Seq []]), (''A'', Some [Single keyG])]"

definition exTop :: "(string \<times> NotiosConfigKeymappingRoot list option) list" where
  "exTop = [(''top'', Some [Seq [keyG, keyG]]), (''other'', Some [Single keyX])]"

definition exTrie :: KeymappingNode where
  "exTrie = KeymappingNode
     [(''x---'', KeymappingNode [] (Some ''other'')),
      (''g---'', KeymappingNode [(''g---'', KeymappingNode [] (Some ''top''))] None)] None"

definition exMid :: KeymappingNode where
  "exMid = KeymappingNode [(''g---'', KeymappingNode [] (Some ''top''))] None"

definition plainKey :: Key where
  "plainKey = \<lparr>ctrl = False, meta = False, shift = False, pressed = []\<rparr>"

text \<open>A list of special key names for the examples.\<close>

definition exSpecialKeyNames :: "string list" where
  "exSpecialKeyNames =
     [''upArrow'', ''downArrow'', ''leftArrow'', ''rightArrow'', ''pageDown'', ''pageUp'',
      ''return'', ''tab'', ''backspace'', ''delete'']"


subsection \<open>Example nodes\<close>

text \<open>\<^verbatim>\<open>$createEmptyLogAccumulated\<close> and the node literal that \<^verbatim>\<open>$startRunning\<close> builds for a sink.\<close>

definition createEmptyLogAccumulated :: LogAccumulated where
  "createEmptyLogAccumulated =
     \<lparr>lineCount = 0, lines = [], unreadLines = [], lastLineToTitle = Map.empty\<rparr>"

definition createEmptyLogOwn :: LogOwn where
  "createEmptyLogOwn = \<lparr>currentSty = [], currentParser = []\<rparr>"

definition sinkNode :: "string \<Rightarrow> ProcStatus \<Rightarrow> exit_code \<Rightarrow> ProcNode" where
  "sinkNode nm st code =
     Node \<lparr>name = nm, ntype = none, procOwn = None, logOwn = Some createEmptyLogOwn,
           status = st, exitCode = code, logAccumulated = createEmptyLogAccumulated,
           logOmitted = False, ignored = False\<rparr> []"

definition procNode :: "string \<Rightarrow> nat option \<Rightarrow> ProcStatus \<Rightarrow> ProcNode list \<Rightarrow> ProcNode" where
  "procNode nm handle st cs =
     Node \<lparr>name = nm, ntype = none,
           procOwn = Some \<lparr>command = nm, cwd = ''/'', npmPath = ''npm'', raw = handle\<rparr>,
           logOwn = Some createEmptyLogOwn,
           status = st, exitCode = Undefined, logAccumulated = createEmptyLogAccumulated,
           logOmitted = False, ignored = False\<rparr> cs"

definition groupNode :: "string \<Rightarrow> ProcNodeType \<Rightarrow> ProcStatus \<Rightarrow> ProcNode list \<Rightarrow> ProcNode" where
  "groupNode nm ty st cs =
     Node \<lparr>name = nm, ntype = ty, procOwn = None, logOwn = Some createEmptyLogOwn,
           status = st, exitCode = Undefined, logAccumulated = createEmptyLogAccumulated,
           logOmitted = False, ignored = False\<rparr> cs"

lemmas example_defs = sinkNode_def procNode_def groupNode_def
  createEmptyLogAccumulated_def createEmptyLogOwn_def

subsection \<open>Example process nodes\<close>

definition exLeaf :: ProcNode where
  "exLeaf = procNode ''dev'' (Some 4242) running [exSink ''<out>'' [], exSink ''<err>'' []]"

text \<open>A process node under which a further task has registered itself.\<close>

definition exBusy :: ProcNode where
  "exBusy = procNode ''dev'' (Some 4242) running
              [exSink ''<out>'' [], exSink ''<err>'' [], exSink ''lint'' []]"

definition exDone :: ProcNode where
  "exDone = procNode ''dev'' None finished
              [sinkNode ''<out>'' finished (Num 0), sinkNode ''<err>'' finished (Num 0)]"

section \<open>Theorems\<close>

lemma all_status_iff:
  "all_status t ss \<longleftrightarrow> ss \<noteq> [] \<and> (\<forall>s \<in> set ss. s = t)"
proof -
  have "math_max (map (\<lambda>s. if s = t then 0 else 1) ss) =
        (if ss = [] then None else if \<forall>s \<in> set ss. s = t then Some 0 else Some 1)"
    by (induction ss) (auto split: option.splits)
  then show ?thesis by (simp add: all_status_def)
qed

lemma nonIgnored_recompute: "nonIgnored (recompute node) = nonIgnored node"
  by (simp add: recompute_def nonIgnored_def Let_def)

text \<open>
  C1. With at least one child that is not ignored, the recomputation sets the status to
  killed when the node owns a process identity and all those children are killed, else to
  finished when all are finished, else to waiting when all are waiting, else to running.
  With no such child, status and exit code stay as they are.
\<close>

theorem C1_status_precedence:
  "(nonIgnored node \<noteq> [] \<longrightarrow>
      nstatus (recompute node) =
        (if procOwn (info node) \<noteq> None \<and> (\<forall>c \<in> set (nonIgnored node). nstatus c = killed)
           then killed
         else if \<forall>c \<in> set (nonIgnored node). nstatus c = finished then finished
         else if \<forall>c \<in> set (nonIgnored node). nstatus c = waiting then waiting
         else running)) \<and>
   (nonIgnored node = [] \<longrightarrow>
      nstatus (recompute node) = nstatus node \<and> nexitCode (recompute node) = nexitCode node)"
  by (auto simp: recompute_def Let_def aggregate_status_def all_status_iff)

theorem C1_status_precedence_witness:
  "nonIgnored (procNode ''build'' None running
       [sinkNode ''<out>'' killed Undefined, sinkNode ''<err>'' killed Undefined]) \<noteq> [] \<and>
   nstatus (recompute (procNode ''build'' None running
       [sinkNode ''<out>'' killed Undefined, sinkNode ''<err>'' killed Undefined])) = killed"
  using C1_status_precedence [of "procNode ''build'' None running
       [sinkNode ''<out>'' killed Undefined, sinkNode ''<err>'' killed Undefined]"]
  by (simp add: example_defs nonIgnored_def)

subsection \<open>Exit code aggregation\<close>

lemma foldl_js_or:
  "foldl (\<lambda>accum n. js_or accum (f n)) a cs =
     (if truthy a then a
      else case find truthy (map f cs) of
             Some c \<Rightarrow> c
           | None \<Rightarrow> if cs = [] then a else last (map f cs))"
proof (induction cs arbitrary: a)
  case Nil
  then show ?case by simp
next
  case (Cons c cs)
  show ?case
  proof (cases "truthy a")
    case True
    then have "js_or a (f c) = a" by (simp add: js_or_def)
    with True Cons.IH [of a] show ?thesis by simp
  next
    case False
    then have "js_or a (f c) = f c" by (simp add: js_or_def)
    with False Cons.IH [of "f c"] show ?thesis
      by (auto split: option.splits)
  qed
qed

text \<open>
  C2 as stated fails. Two children with exit codes 0 and 1: the first exit code that is
  neither null nor undefined is 0, and the pass stores 1.
\<close>

theorem C2_exit_code_counterexample:
  "nonIgnored (groupNode ''all'' parallel running
       [sinkNode ''a'' finished (Num 0), sinkNode ''b'' finished (Num 1)]) \<noteq> [] \<and>
   spec_first_defined (map nexitCode (nonIgnored (groupNode ''all'' parallel running
       [sinkNode ''a'' finished (Num 0), sinkNode ''b'' finished (Num 1)]))) = Some (Num 0) \<and>
   nexitCode (recompute (groupNode ''all'' parallel running
       [sinkNode ''a'' finished (Num 0), sinkNode ''b'' finished (Num 1)])) = Num 1"
  by (simp add: example_defs nonIgnored_def recompute_def spec_first_defined_def
      aggregate_exitCode_def js_or_def)

text \<open>
  C2, amended. With at least one child that is not ignored, the notify pass sets the exit
  code to the first exit code among those children, left to right, that is neither null
  nor undefined nor 0; when there is none, to the exit code of the last of those children.
\<close>

theorem C2_exit_code_first_truthy:
  "nonIgnored node \<noteq> [] \<Longrightarrow>
   nexitCode (recompute node) =
     (case find truthy (map nexitCode (nonIgnored node)) of
        Some c \<Rightarrow> c
      | None \<Rightarrow> last (map nexitCode (nonIgnored node)))"
  by (simp add: recompute_def Let_def aggregate_exitCode_def foldl_js_or)

theorem C2_exit_code_first_truthy_witness:
  "nonIgnored (groupNode ''all'' parallel running
       [sinkNode ''a'' finished Null, sinkNode ''b'' finished (Num 0),
        sinkNode ''c'' finished (Num 2), sinkNode ''d'' finished (Num 3)]) \<noteq> [] \<and>
   nexitCode (recompute (groupNode ''all'' parallel running
       [sinkNode ''a'' finished Null, sinkNode ''b'' finished (Num 0),
        sinkNode ''c'' finished (Num 2), sinkNode ''d'' finished (Num 3)])) = Num 2"
  using C2_exit_code_first_truthy [of "groupNode ''all'' parallel running
       [sinkNode ''a'' finished Null, sinkNode ''b'' finished (Num 0),
        sinkNode ''c'' finished (Num 2), sinkNode ''d'' finished (Num 3)]"]
  by (simp add: example_defs nonIgnored_def)

subsection \<open>Serial scheduling\<close>


lemma pairOK_update:
  assumes "pairOK cs i" "i + 1 \<le> j" "j + 1 < length cs"
  shows "pairOK (cs[i + 1 := startRunning (cs ! (i + 1))]) j = pairOK cs j"
proof (cases "j = i + 1")
  case True
  with assms show ?thesis by (simp add: pairOK_def startRunning_def)
next
  case False
  with assms show ?thesis by (simp add: pairOK_def)
qed

lemma checkSerial_loop_children:
  "j < length cs \<Longrightarrow>
   fst (checkSerial_loop i cs started) ! j =
     (if i < j \<and> pairOK cs (j - 1) then startRunning (cs ! j) else cs ! j)"
proof (induction i cs started rule: checkSerial_loop.induct)
  case (1 i cs started)
  let ?cs = "cs[i + 1 := startRunning (cs ! (i + 1))]"
  show ?case
  proof (cases "i + 1 < length cs")
    case False
    with 1(3) have "\<not> i < j" by simp
    with False show ?thesis by (simp add: checkSerial_loop.simps [of i cs started])
  next
    case inr: True
    have unfold: "checkSerial_loop i cs started =
        (if pairOK cs i then checkSerial_loop (i + 1) ?cs (started @ [i + 1])
         else checkSerial_loop (i + 1) cs started)"
      using inr by (subst checkSerial_loop.simps) (simp add: pairOK_def)
    show ?thesis
    proof (cases "pairOK cs i")
      case False
      then have "nstatus (cs ! i) = finished \<and> nstatus (cs ! (i + 1)) = waiting \<Longrightarrow> False"
        by (simp add: pairOK_def)
      then have ih: "fst (checkSerial_loop (i + 1) cs started) ! j =
          (if i + 1 < j \<and> pairOK cs (j - 1) then startRunning (cs ! j) else cs ! j)"
        using 1(2) [OF inr _ 1(3)] by blast
      have "j = i + 1 \<Longrightarrow> \<not> pairOK cs (j - 1)" using False by simp
      then have "(i + 1 < j \<and> pairOK cs (j - 1)) = (i < j \<and> pairOK cs (j - 1))"
        by (cases "j = i + 1") auto
      with False unfold ih show ?thesis by simp
    next
      case True
      from True have c: "nstatus (cs ! i) = finished \<and> nstatus (cs ! (i + 1)) = waiting"
        by (simp add: pairOK_def)
      have jl: "j < length ?cs" using 1(3) by simp
      have ih: "fst (checkSerial_loop (i + 1) ?cs (started @ [i + 1])) ! j =
          (if i + 1 < j \<and> pairOK ?cs (j - 1) then startRunning (?cs ! j) else ?cs ! j)"
        using 1(1) [OF inr c jl] .
      show ?thesis
      proof (cases "i + 1 < j")
        case far: True
        then have "pairOK ?cs (j - 1) = pairOK cs (j - 1)"
          using pairOK_update [OF True, of "j - 1"] 1(3) by simp
        moreover have "?cs ! j = cs ! j" using far by simp
        ultimately show ?thesis using ih unfold True far by simp
      next
        case near: False
        show ?thesis
        proof (cases "j = i + 1")
          case True
          with ih unfold \<open>pairOK cs i\<close> inr show ?thesis by simp
        next
          case False
          with near have "\<not> i < j" by simp
          moreover from this have "?cs ! j = cs ! j" by simp
          ultimately show ?thesis using ih unfold True near by simp
        qed
      qed
    qed
  qed
qed



subsection \<open>Log merge and history eviction\<close>

lemma tailSize_pos: "0 < tailSize cfg"
  by (simp add: tailSize_def)

lemma wipeHistory_lines:
  "lines (nlog (wipeHistory cfg c node)) =
     (if length (lines (nlog node)) > headSize cfg + tailSize cfg
      then take (headSize cfg) (lines (nlog node)) @ [historyDropped c] @
           drop (length (lines (nlog node)) - tailSize cfg) (lines (nlog node))
      else lines (nlog node))"
  by (simp add: wipeHistory_def Let_def slice_def)


lemma wipeHistory_children [simp]: "children (wipeHistory cfg c node) = children node"
  by (simp add: wipeHistory_def Let_def)


lemma wipeHistory_keeps [simp]:
  "lastLineToTitle (nlog (wipeHistory cfg c node)) = lastLineToTitle (nlog node)"
  "lineCount (nlog (wipeHistory cfg c node)) = lineCount (nlog node)"
  "nonIgnored (wipeHistory cfg c node) = nonIgnored node"
  by (simp_all add: wipeHistory_def Let_def nonIgnored_def)

lemma pickTitle_fresh: "pickTitle known nm k \<notin> set known"
proof (induction known nm k rule: pickTitle.induct)
  case (1 known nm titleCnt)
  then show ?case by (subst pickTitle.simps) simp
qed


lemma slice_empty [simp]: "slice n n xs = []"
  by (simp add: slice_def)



lemma settled_cong:
  "settled lastOf known cs \<Longrightarrow> (\<And>t. t \<notin> set known \<Longrightarrow> lastOf' t = lastOf t) \<Longrightarrow>
   settled lastOf' known cs"
proof (induction cs arbitrary: known)
  case Nil
  then show ?case by simp
next
  case (Cons child rest)
  let ?t = "pickTitle known (name (info child)) 0"
  have "?t \<notin> set known" by (rule pickTitle_fresh)
  then have eq: "lastOf' ?t = lastOf ?t" by (rule Cons.prems(2))
  have "settled lastOf' (?t # known) rest"
    using Cons.prems by (intro Cons.IH) (simp_all add: Let_def)
  with eq Cons.prems(1) show ?case by (simp add: Let_def)
qed



lemma sortByTimestamp_Nil [simp]: "sortByTimestamp [] = Inr []"
  by (simp add: sortByTimestamp_def)



subsection \<open>The pass on one node\<close>

lemma checkSerial_loop_length: "length (fst (checkSerial_loop i cs started)) = length cs"
proof (induction i cs started rule: checkSerial_loop.induct)
  case (1 i cs started)
  let ?cs = "cs[i + 1 := startRunning (cs ! (i + 1))]"
  show ?case
  proof (cases "i + 1 < length cs")
    case False
    then show ?thesis by (simp add: checkSerial_loop.simps [of i cs started])
  next
    case inr: True
    show ?thesis
    proof (cases "nstatus (cs ! i) = finished \<and> nstatus (cs ! (i + 1)) = waiting")
      case True
      have "checkSerial_loop i cs started = checkSerial_loop (i + 1) ?cs (started @ [i + 1])"
        using inr True by (subst checkSerial_loop.simps) simp
      with 1(1) [OF inr True] show ?thesis by simp
    next
      case False
      have "checkSerial_loop i cs started = checkSerial_loop (i + 1) cs started"
        using inr False by (subst checkSerial_loop.simps) auto
      with 1(2) [OF inr False] show ?thesis by simp
    qed
  qed
qed

lemma logView_startRunning [simp]: "logView (startRunning c) = logView c"
  by (simp add: logView_def startRunning_def)

lemma checkSerial_loop_logView:
  "map logView (fst (checkSerial_loop i cs started)) = map logView cs"
proof (rule nth_equalityI)
  show "length (map logView (fst (checkSerial_loop i cs started))) = length (map logView cs)"
    by (simp add: checkSerial_loop_length)
next
  fix j assume "j < length (map logView (fst (checkSerial_loop i cs started)))"
  then have j: "j < length cs" by (simp add: checkSerial_loop_length)
  then show "map logView (fst (checkSerial_loop i cs started)) ! j = map logView cs ! j"
    using checkSerial_loop_children [OF j, of i started]
    by (simp add: checkSerial_loop_length)
qed

lemma checkSerial_logEq: "logEq (fst (checkSerial node)) node"
proof -
  have "map logView ((children node)[0 := startRunning (children node ! 0)]) =
        map logView (children node)" if "children node \<noteq> []"
    using that by (cases "children node") simp_all
  then show ?thesis
    using checkSerial_loop_logView [of 0 "children node" "[]"]
    by (auto simp: logEq_def checkSerial_def split: prod.splits)
qed

lemma recompute_logEq: "logEq (recompute node) node"
  by (simp add: logEq_def recompute_def Let_def)

lemma logEq_trans: "logEq a b \<Longrightarrow> logEq b c \<Longrightarrow> logEq a c"
  by (simp add: logEq_def)


lemma prep_logEq: "logEq (fst (checkSerial (recompute node))) node"
  by (rule logEq_trans [OF checkSerial_logEq recompute_logEq])

lemma mergeChildren_cong:
  "map logView cs = map logView cs' \<Longrightarrow>
   mergeChildren cs known cnt beingAdded lastOf = mergeChildren cs' known cnt beingAdded lastOf"
proof (induction cs arbitrary: cs' known cnt beingAdded lastOf)
  case Nil
  then show ?case by simp
next
  case (Cons child rest)
  then obtain child' rest' where cs': "cs' = child' # rest'"
    and hd: "logView child = logView child'" and tl: "map logView rest = map logView rest'"
    by (cases cs') auto
  from hd have nm: "name (info child) = name (info child')" and lg: "nlog child = nlog child'"
    by (simp_all add: logView_def)
  show ?case
    by (simp only: cs' mergeChildren.simps nm lg Let_def Cons.IH [OF tl])
qed

lemma nonIgnored_logView:
  "map logView (children a) = map logView (children b) \<Longrightarrow>
   map logView (nonIgnored a) = map logView (nonIgnored b)"
proof -
  assume eq: "map logView (children a) = map logView (children b)"
  have "\<And>cs cs'. map logView cs = map logView cs' \<Longrightarrow>
      map logView (filter (\<lambda>c. \<not> nignored c) cs) = map logView (filter (\<lambda>c. \<not> nignored c) cs')"
  proof -
    fix cs cs' :: "ProcNode list"
    show "map logView cs = map logView cs' \<Longrightarrow>
      map logView (filter (\<lambda>c. \<not> nignored c) cs) = map logView (filter (\<lambda>c. \<not> nignored c) cs')"
    proof (induction cs arbitrary: cs')
      case Nil
      then show ?case by simp
    next
      case (Cons c cs)
      then obtain c' rest' where cs': "cs' = c' # rest'" and hd: "logView c = logView c'"
        and tl: "map logView cs = map logView rest'" by (cases cs') auto
      have ig: "nignored c = nignored c'" using hd by (simp add: logView_def)
      show ?case using ig hd Cons.IH [OF tl] by (simp add: cs')
    qed
  qed
  from this [OF eq] show ?thesis by (simp add: nonIgnored_def)
qed

lemma mergeLogs_cong:
  assumes "logEq a b"
  shows "(\<forall>e. mergeLogs cfg a = Inl e \<longrightarrow> mergeLogs cfg b = Inl e) \<and>
         (\<forall>a'. mergeLogs cfg a = Inr a' \<longrightarrow> (\<exists>b'. mergeLogs cfg b = Inr b' \<and> logEq a' b'))"
proof -
  from assms have lg: "nlog a = nlog b" and ch: "map logView (children a) = map logView (children b)"
    by (simp_all add: logEq_def)
  have ni: "map logView (nonIgnored a) = map logView (nonIgnored b)"
    by (rule nonIgnored_logView [OF ch])
  then have len: "length (nonIgnored a) = length (nonIgnored b)"
    using map_eq_imp_length_eq by blast
  have mc: "mergeChildren (nonIgnored a) objectPrototypeKeys 0 [] (lastLineToTitle (nlog b)) =
            mergeChildren (nonIgnored b) objectPrototypeKeys 0 [] (lastLineToTitle (nlog b))"
    by (rule mergeChildren_cong [OF ni])
  show ?thesis
    using lg ch len mc
    by (auto simp: mergeLogs_def Let_def logEq_def split: prod.splits sum.splits)
qed











subsection \<open>Killing a process and the exit of a process\<close>

lemma mergeLogs_frame:
  assumes "mergeLogs cfg n = Inr n'"
  shows "children n' = children n" "nstatus n' = nstatus n" "procOwn (info n') = procOwn (info n)"
    "nignored n' = nignored n"
  using assms by (auto simp: mergeLogs_def Let_def split: if_splits prod.splits sum.splits)

lemma wipeHistory_frame:
  "children (wipeHistory cfg c n) = children n" "nstatus (wipeHistory cfg c n) = nstatus n"
  "procOwn (info (wipeHistory cfg c n)) = procOwn (info n)"
  "nignored (wipeHistory cfg c n) = nignored n"
  by (simp_all add: wipeHistory_def Let_def)

lemma checkSerial_idle: "nstatus n \<noteq> running \<Longrightarrow> checkSerial n = (n, [])"
  by (simp add: checkSerial_def)

lemma recompute_frame:
  "children (recompute n) = children n" "procOwn (info (recompute n)) = procOwn (info n)"
  "nignored (recompute n) = nignored n" "nlog (recompute n) = nlog n"
  by (simp_all add: recompute_def Let_def)

lemma recompute_killed:
  assumes "procOwn (info n) \<noteq> None" and "nstatus n = killed"
    and "\<forall>ch \<in> set (nonIgnored n). nstatus ch = killed"
  shows "nstatus (recompute n) = killed"
  using assms by (auto simp: recompute_def Let_def aggregate_status_def all_status_iff)

lemma notifyOwn_killed:
  assumes po: "procOwn (info n) \<noteq> None" and st: "nstatus n = killed"
    and ch: "\<forall>ch \<in> set (nonIgnored n). nstatus ch = killed"
    and run: "notifyOwn cfg c n = Inr n'"
  shows "nstatus n' = killed \<and> children n' = children n \<and> procOwn (info n') = procOwn (info n)"
proof -
  have k: "nstatus (recompute n) = killed" by (rule recompute_killed [OF po st ch])
  then have cs: "fst (checkSerial (recompute n)) = recompute n"
    by (simp add: checkSerial_idle)
  from run obtain m where m: "mergeLogs cfg (recompute n) = Inr m" and n': "n' = wipeHistory cfg c m"
    by (auto simp: notifyOwn_def notifyLog_def cs split: sum.splits)
  show ?thesis
    unfolding n' using mergeLogs_frame [OF m] k
    by (simp add: wipeHistory_frame recompute_frame)
qed

lemma appendLogToNode_frame:
  assumes "appendLogToNode ext cfg now bytes n = Inr n'"
  shows "children n' = children n" "nstatus n' = nstatus n" "nignored n' = nignored n"
  using assms by (auto simp: appendLogToNode_def split: option.splits prod.splits)

lemma printable_append: "printable (xs @ ys) = printable xs @ printable ys"
  by (induction xs rule: printable.induct) simp_all

lemma updLast_lines:
  "lines la = pre @ [l] \<Longrightarrow> lines (updLast f la) = pre @ [l\<lparr>main := f (main l)\<rparr>]"
  by (simp add: updLast_def Let_def)

lemma pushContent_lines:
  "lines la = pre @ [l] \<Longrightarrow>
   lines (pushContent tok la) = pre @ [l\<lparr>main := (main l)\<lparr>content := content (main l) @ [tok]\<rparr>\<rparr>]"
  by (simp add: pushContent_def updLast_lines)

lemma checkTimestamp_lines:
  "lines la = pre @ [l] \<Longrightarrow>
   \<exists>l'. lines (checkTimestamp now la) = pre @ [l'] \<and> timestamp (main l') \<noteq> None \<and>
        content (main l') = content (main l)"
  by (cases "timestamp (main l)") (simp_all add: checkTimestamp_def updLast_lines)

lemma step_style:
  assumes "lines la = pre @ [l]"
  shows "\<exists>sty' la' l'. appendAction ext cfg now (ActStyle ps) (sty, la) = (sty', la') \<and>
           lines la' = pre @ [l'] \<and> timestamp (main l') = timestamp (main l) \<and>
           printable (content (main l')) = printable (content (main l))"
  using assms pushContent_lines [OF assms]
  by (simp add: appendAction_def Let_def printable_append)

lemma step_print:
  assumes "lines la = pre @ [l]"
  shows "\<exists>sty' la' l'. appendAction ext cfg now (ActPrint b) (sty, la) = (sty', la') \<and>
           lines la' = pre @ [l'] \<and> timestamp (main l') \<noteq> None \<and>
           printable (content (main l')) = printable (content (main l)) @ [b]"
proof -
  from checkTimestamp_lines [OF assms, of now] obtain l1 where
    l1: "lines (checkTimestamp now la) = pre @ [l1]" "timestamp (main l1) \<noteq> None"
        "content (main l1) = content (main l)" by blast
  from pushContent_lines [OF l1(1)] l1(2,3) assms show ?thesis
    by (simp add: appendAction_def Let_def printable_append)
qed

lemma fold_styles:
  "lines la = pre @ [l] \<Longrightarrow>
   \<exists>sty' la' l'. fold (appendAction ext cfg now) (map ActStyle ss) (sty, la) = (sty', la') \<and>
      lines la' = pre @ [l'] \<and> timestamp (main l') = timestamp (main l) \<and>
      printable (content (main l')) = printable (content (main l))"
proof (induction ss arbitrary: sty la l)
  case Nil
  then show ?case by simp
next
  case (Cons ps ss)
  from step_style [OF Cons.prems, of ext cfg now ps sty] obtain sty1 la1 l1 where
    s: "appendAction ext cfg now (ActStyle ps) (sty, la) = (sty1, la1)"
    and l1: "lines la1 = pre @ [l1]" "timestamp (main l1) = timestamp (main l)"
       "printable (content (main l1)) = printable (content (main l))" by blast
  from Cons.IH [OF l1(1), of sty1] s l1(2,3) show ?case by simp
qed

lemma fold_prints:
  "lines la = pre @ [l] \<Longrightarrow>
   \<exists>sty' la' l'. fold (appendAction ext cfg now) (map ActPrint bs) (sty, la) = (sty', la') \<and>
      lines la' = pre @ [l'] \<and> (bs \<noteq> [] \<longrightarrow> timestamp (main l') \<noteq> None) \<and>
      printable (content (main l')) = printable (content (main l)) @ bs"
proof (induction bs arbitrary: sty la l)
  case Nil
  then show ?case by simp
next
  case (Cons b bs)
  from step_print [OF Cons.prems, of ext cfg now b sty] obtain sty1 la1 l1 where
    s: "appendAction ext cfg now (ActPrint b) (sty, la) = (sty1, la1)"
    and l1: "lines la1 = pre @ [l1]" "timestamp (main l1) \<noteq> None"
       "printable (content (main l1)) = printable (content (main l)) @ [b]" by blast
  from Cons.IH [OF l1(1), of sty1] obtain sty2 la2 l2 where
    r: "fold (appendAction ext cfg now) (map ActPrint bs) (sty1, la1) = (sty2, la2)"
    and l2: "lines la2 = pre @ [l2]" "bs \<noteq> [] \<longrightarrow> timestamp (main l2) \<noteq> None"
       "printable (content (main l2)) = printable (content (main l1)) @ bs" by blast
  have "timestamp (main l2) \<noteq> None"
  proof (cases "bs = []")
    case True
    with r l1(1) l2(1) l1(2) show ?thesis by simp
  next
    case False
    with l2(2) show ?thesis by simp
  qed
  with s r l2 l1(3) show ?case by simp
qed

lemma step_newline_opens:
  "\<exists>la' pre l'. appendAction ext cfg now (ActControll 10) (sty, la) = (sty, la') \<and>
      lines la' = pre @ [l'] \<and> timestamp (main l') = None \<and> printable (content (main l')) = []"
  by (simp add: appendAction_def Let_def pushLine_def)

lemma step_newline_closes:
  assumes "lines la = pre @ [l]" and "timestamp (main l) \<noteq> None"
  shows "\<exists>la' l'. appendAction ext cfg now (ActControll 10) (sty, la) = (sty, la') \<and>
           lines la' = pre @ [l, l']"
  using assms by (auto simp: appendAction_def Let_def pushLine_def checkTimestamp_def)

lemma kill_actions_line:
  assumes "bs \<noteq> []"
  shows "\<exists>sty' la' pre l l'.
      fold (appendAction ext cfg now)
        ([ActControll 10] @ map ActStyle ss1 @ map ActPrint bs @ map ActStyle ss2 @ [ActControll 10])
        (sty, la) = (sty', la') \<and>
      lines la' = pre @ [l, l'] \<and> timestamp (main l) \<noteq> None \<and>
      printable (content (main l)) = bs"
proof -
  from step_newline_opens [of ext cfg now sty la] obtain la1 pre l1 where
    a1: "appendAction ext cfg now (ActControll 10) (sty, la) = (sty, la1)"
    and l1: "lines la1 = pre @ [l1]" "timestamp (main l1) = None"
       "printable (content (main l1)) = []" by blast
  from fold_styles [OF l1(1), of ext cfg now ss1 sty] obtain sty2 la2 l2 where
    a2: "fold (appendAction ext cfg now) (map ActStyle ss1) (sty, la1) = (sty2, la2)"
    and l2: "lines la2 = pre @ [l2]" "printable (content (main l2)) = printable (content (main l1))"
    by blast
  from fold_prints [OF l2(1), of ext cfg now bs sty2] assms obtain sty3 la3 l3 where
    a3: "fold (appendAction ext cfg now) (map ActPrint bs) (sty2, la2) = (sty3, la3)"
    and l3: "lines la3 = pre @ [l3]" "timestamp (main l3) \<noteq> None"
       "printable (content (main l3)) = printable (content (main l2)) @ bs" by blast
  from fold_styles [OF l3(1), of ext cfg now ss2 sty3] obtain sty4 la4 l4 where
    a4: "fold (appendAction ext cfg now) (map ActStyle ss2) (sty3, la3) = (sty4, la4)"
    and l4: "lines la4 = pre @ [l4]" "timestamp (main l4) = timestamp (main l3)"
       "printable (content (main l4)) = printable (content (main l3))" by blast
  from l4(2) l3(2) have "timestamp (main l4) \<noteq> None" by simp
  from step_newline_closes [OF l4(1) this, of ext cfg now sty4] obtain la5 l5 where
    a5: "appendAction ext cfg now (ActControll 10) (sty4, la4) = (sty4, la5)"
    and l5: "lines la5 = pre @ [l4, l5]" by blast
  have "fold (appendAction ext cfg now)
        ([ActControll 10] @ map ActStyle ss1 @ map ActPrint bs @ map ActStyle ss2 @ [ActControll 10])
        (sty, la) = (sty4, la5)"
    using a1 a2 a3 a4 a5 by simp
  moreover have "printable (content (main l4)) = bs" using l4(3) l3(3) l2(2) l1(3) by simp
  ultimately show ?thesis using l5 \<open>timestamp (main l4) \<noteq> None\<close> by blast
qed

lemma checkSerial_keeps:
  assumes j: "j < length (children n)" and nw: "nstatus (children n ! j) \<noteq> waiting"
  shows "children (fst (checkSerial n)) ! j = children n ! j"
proof (cases "nstatus n = running \<and> ntype (info n) = serial \<and> length (children n) > 0")
  case False
  then have "checkSerial n = (n, [])" by (auto simp: checkSerial_def)
  then show ?thesis by simp
next
  case True
  show ?thesis
  proof (cases "nstatus (children n ! 0) = waiting")
    case first: True
    have "j \<noteq> 0"
    proof
      assume "j = 0"
      with nw first show False by simp
    qed
    with True first show ?thesis by (simp add: checkSerial_def)
  next
    case False
    have "\<not> (0 < j \<and> pairOK (children n) (j - 1))"
      using nw by (auto simp: pairOK_def)
    then have "fst (checkSerial_loop 0 (children n) []) ! j = children n ! j"
      using checkSerial_loop_children [OF j, of 0 "[]"] by auto
    with True False show ?thesis
      by (cases "checkSerial_loop 0 (children n) []") (simp add: checkSerial_def)
  qed
qed

lemma checkSerial_length: "length (children (fst (checkSerial n))) = length (children n)"
  using checkSerial_loop_length [of 0 "children n" "[]"]
  by (auto simp: checkSerial_def split: prod.splits)

lemma notifyOwn_children:
  assumes "notifyOwn cfg c n = Inr n'"
  shows "children n' = children (fst (checkSerial (recompute n)))"
proof -
  from assms obtain m where "mergeLogs cfg (fst (checkSerial (recompute n))) = Inr m"
    and "n' = wipeHistory cfg c m"
    by (auto simp: notifyOwn_def notifyLog_def split: sum.splits)
  then show ?thesis using mergeLogs_frame(1) by (simp add: wipeHistory_frame)
qed

lemma notifyOwn_keeps:
  assumes run: "notifyOwn cfg c n = Inr n'" and j: "j < length (children n)"
    and nw: "nstatus (children n ! j) \<noteq> waiting"
  shows "children n' ! j = children n ! j"
  using checkSerial_keeps [of j "recompute n"] j nw
  by (simp add: notifyOwn_children [OF run] recompute_frame)

lemma nonIgnored_subset: "ch \<in> set (nonIgnored n) \<Longrightarrow> ch \<in> set (children n) \<and> \<not> nignored ch"
  by (simp add: nonIgnored_def)

lemma settledKilled_notifyOwn:
  assumes "settledKilled n" and "notifyOwn cfg c n = Inr n'"
  shows "settledKilled n' \<and> children n' = children n"
proof -
  from assms(1) have po: "procOwn (info n) \<noteq> None" and st: "nstatus n = killed"
    and ch: "\<forall>ch \<in> set (nonIgnored n). nstatus ch = killed"
    using nonIgnored_subset by (auto simp: settledKilled_def)
  from notifyOwn_killed [OF po st ch assms(2)] assms(1) show ?thesis
    by (simp add: settledKilled_def)
qed

lemma killNode_idle: "\<not> killable node \<Longrightarrow> killNode ext cfg c now node = Inr node"
  by (auto simp: killable_def killNode_def split: option.splits)

lemma killNode_effective:
  assumes k: "killable (Some inode)" and r: "killNode ext cfg c now (Some inode) = Inr (Some inode')"
  obtains po out where "procOwn (info inode) = Some po" "2 \<le> length (children inode)"
    "appendLogToNode ext cfg now (killMessage c) (setStatus killed (children inode ! 0)) = Inr out"
    "notifyOwn cfg c (Node ((info inode)\<lparr>procOwn := Some (po\<lparr>raw := None\<rparr>), status := killed\<rparr>)
        (out # setStatus killed (children inode ! 1) # drop 2 (children inode))) = Inr inode'"
proof -
  from k obtain po pid where po: "procOwn (info inode) = Some po" "raw po = Some pid"
    "nstatus inode = running"
    by (auto simp: killable_def split: option.splits)
  from r po have len: "2 \<le> length (children inode)"
    by (auto simp: killNode_def split: if_splits)
  from r po len obtain out where
    "appendLogToNode ext cfg now (killMessage c) (setStatus killed (children inode ! 0)) = Inr out"
    "notifyOwn cfg c (Node ((info inode)\<lparr>procOwn := Some (po\<lparr>raw := None\<rparr>), status := killed\<rparr>)
        (out # setStatus killed (children inode ! 1) # drop 2 (children inode))) = Inr inode'"
    by (auto simp: killNode_def split: sum.splits)
  with po len that show thesis by blast
qed

text \<open>
  C8 as stated fails. A running process node with a live handle, its two sinks and a
  third, running child: after \<^verbatim>\<open>killNode\<close> the status of the node is running, since the
  notify pass at the end of \<^verbatim>\<open>killNode\<close> recomputes it from the children.
\<close>

theorem C8_killNode_counterexample:
  "killable (Some exBusy) \<and>
   map_sum id (map_option nstatus) (killNode plainAnsi exCfg False 7 (Some exBusy)) =
     Inr (Some running)"
  by code_simp

lemma killNode_effect:
  "(\<not> killable node \<longrightarrow> killNode ext cfg c now node = Inr node) \<and>
   (killable (Some inode) \<and>
    logOwn (info (children inode ! 0)) = Some lo \<and>
    decodeAnsiBytes ext (currentParser lo) (killMessage c) =
      (parser', [ActControll 10] @ map ActStyle ss1
                 @ map ActPrint (bytes_of ''[NOTIOS] MANUALLY KILLED'')
                 @ map ActStyle ss2 @ [ActControll 10]) \<and>
    killNode ext cfg c now (Some inode) = Inr (Some inode') \<longrightarrow>
      nstatus (children inode' ! 0) = killed \<and> nstatus (children inode' ! 1) = killed \<and>
      (\<exists>l \<in> set (lines (nlog (children inode' ! 0))).
          timestamp (main l) \<noteq> None \<and>
          printable (content (main l)) = bytes_of ''[NOTIOS] MANUALLY KILLED'') \<and>
      ((\<forall>ch \<in> set (drop 2 (children inode)). nignored ch \<or> nstatus ch = killed) \<longrightarrow>
          nstatus inode' = killed))"
proof (intro conjI impI)
  assume "\<not> killable node"
  then show "killNode ext cfg c now node = Inr node" by (rule killNode_idle)
next
  assume a: "killable (Some inode) \<and>
    logOwn (info (children inode ! 0)) = Some lo \<and>
    decodeAnsiBytes ext (currentParser lo) (killMessage c) =
      (parser', [ActControll 10] @ map ActStyle ss1
                 @ map ActPrint (bytes_of ''[NOTIOS] MANUALLY KILLED'')
                 @ map ActStyle ss2 @ [ActControll 10]) \<and>
    killNode ext cfg c now (Some inode) = Inr (Some inode')"
  then have k: "killable (Some inode)" and lo: "logOwn (info (children inode ! 0)) = Some lo"
    and dec: "decodeAnsiBytes ext (currentParser lo) (killMessage c) =
      (parser', [ActControll 10] @ map ActStyle ss1
                 @ map ActPrint (bytes_of ''[NOTIOS] MANUALLY KILLED'')
                 @ map ActStyle ss2 @ [ActControll 10])"
    and r: "killNode ext cfg c now (Some inode) = Inr (Some inode')" by simp_all
  from killNode_effective [OF k r] obtain po out where po: "procOwn (info inode) = Some po"
    and len: "2 \<le> length (children inode)"
    and app: "appendLogToNode ext cfg now (killMessage c) (setStatus killed (children inode ! 0)) = Inr out"
    and pass: "notifyOwn cfg c (Node ((info inode)\<lparr>procOwn := Some (po\<lparr>raw := None\<rparr>), status := killed\<rparr>)
        (out # setStatus killed (children inode ! 1) # drop 2 (children inode))) = Inr inode'"
    by blast
  let ?X = "Node ((info inode)\<lparr>procOwn := Some (po\<lparr>raw := None\<rparr>), status := killed\<rparr>)
        (out # setStatus killed (children inode ! 1) # drop 2 (children inode))"
  have outst: "nstatus out = killed"
    using appendLogToNode_frame(2) [OF app] by (simp add: setStatus_def)
  have c0: "children inode' ! 0 = out"
    using notifyOwn_keeps [OF pass, of 0] outst by simp
  have c1: "children inode' ! 1 = setStatus killed (children inode ! 1)"
    using notifyOwn_keeps [OF pass, of 1] by (simp add: setStatus_def)
  have text_ne: "bytes_of ''[NOTIOS] MANUALLY KILLED'' \<noteq> []" by (simp add: bytes_of_def)
  from kill_actions_line [OF text_ne, of ext cfg now ss1 ss2 "currentSty lo" "nlog (children inode ! 0)"]
  obtain sty' la' pre l l' where
    f: "fold (appendAction ext cfg now)
        ([ActControll 10] @ map ActStyle ss1 @ map ActPrint (bytes_of ''[NOTIOS] MANUALLY KILLED'')
           @ map ActStyle ss2 @ [ActControll 10])
        (currentSty lo, nlog (children inode ! 0)) = (sty', la')"
    and ls: "lines la' = pre @ [l, l']" and ts: "timestamp (main l) \<noteq> None"
    and pr: "printable (content (main l)) = bytes_of ''[NOTIOS] MANUALLY KILLED''" by blast
  have "nlog out = la'"
    using app lo dec f by (auto simp: appendLogToNode_def setStatus_def)
  then have line: "\<exists>l \<in> set (lines (nlog (children inode' ! 0))).
          timestamp (main l) \<noteq> None \<and>
          printable (content (main l)) = bytes_of ''[NOTIOS] MANUALLY KILLED''"
    using ls ts pr c0 by auto
  show "nstatus (children inode' ! 0) = killed" using c0 outst by simp
  show "nstatus (children inode' ! 1) = killed" using c1 by (simp add: setStatus_def)
  show "\<exists>l \<in> set (lines (nlog (children inode' ! 0))).
          timestamp (main l) \<noteq> None \<and>
          printable (content (main l)) = bytes_of ''[NOTIOS] MANUALLY KILLED''" by (rule line)
  assume rest: "\<forall>ch \<in> set (drop 2 (children inode)). nignored ch \<or> nstatus ch = killed"
  have "settledKilled ?X"
    using rest outst by (simp add: settledKilled_def setStatus_def)
  from settledKilled_notifyOwn [OF this pass] show "nstatus inode' = killed"
    by (simp add: settledKilled_def)
qed

lemma childless_prepass:
  assumes "children ch = []"
  shows "mergeLogs cfg (fst (checkSerial (recompute ch))) = Inr ch"
proof -
  have r: "recompute ch = ch" using assms by (simp add: recompute_def nonIgnored_def)
  have s: "checkSerial ch = (ch, [])" using assms by (simp add: checkSerial_def)
  show ?thesis using assms by (simp add: r s mergeLogs_def nonIgnored_def)
qed

lemma map_update_same: "i < length xs \<Longrightarrow> f y = f (xs ! i) \<Longrightarrow> map f (xs[i := y]) = map f xs"
proof (induction xs arbitrary: i)
  case Nil
  then show ?case by simp
next
  case (Cons x xs)
  then show ?case by (cases i) simp_all
qed

lemma notifyChild_settled:
  assumes K: "settledKilled n" and i: "i < length (children n)"
    and leaf: "children (children n ! i) = []"
    and run: "notifyChild cfg c i n = Inr n'"
  shows "settledKilled n' \<and> map nstatus (children n') = map nstatus (children n) \<and>
         map children (children n') = map children (children n) \<and>
         length (children n') = length (children n)"
proof -
  have pre: "mergeLogs cfg (fst (checkSerial (recompute (children n ! i)))) = Inr (children n ! i)"
    by (rule childless_prepass [OF leaf])
  have same: "Node (info n) ((children n)[i := children n ! i]) = n" by simp
  from run pre same obtain m where m: "notifyOwn cfg c n = Inr m"
    and n': "n' = Node (info m) ((children m)[i := wipeHistory cfg c (children m ! i)])"
    by (auto simp: notifyChild_def split: sum.splits)
  from settledKilled_notifyOwn [OF K m] have Km: "settledKilled m" and cm: "children m = children n"
    by simp_all
  let ?w = "wipeHistory cfg c (children n ! i)"
  have ch: "children n' = (children n)[i := ?w]" using n' cm by simp
  have st: "map nstatus (children n') = map nstatus (children n)"
    unfolding ch by (rule map_update_same [OF i]) (simp add: wipeHistory_frame)
  have cc: "map children (children n') = map children (children n)"
    unfolding ch by (rule map_update_same [OF i]) (simp add: wipeHistory_frame)
  have "\<forall>x \<in> set (children n'). nignored x \<or> nstatus x = killed"
  proof
    fix x assume "x \<in> set (children n')"
    then obtain j where j: "j < length (children n)" and x: "x = (children n)[i := ?w] ! j"
      unfolding ch by (auto simp: in_set_conv_nth)
    have orig: "nignored (children n ! j) \<or> nstatus (children n ! j) = killed"
      using Km cm j by (simp add: settledKilled_def)
    show "nignored x \<or> nstatus x = killed"
    proof (cases "j = i")
      case True
      with x j orig show ?thesis by (simp add: wipeHistory_frame)
    next
      case False
      with x j orig show ?thesis by simp
    qed
  qed
  then have "settledKilled n'" using Km n' by (simp add: settledKilled_def)
  with st cc ch show ?thesis by simp
qed

lemma exitSink_killed: "nstatus s = killed \<Longrightarrow> nstatus (exitSink code s) = killed"
  by (simp add: exitSink_def)

lemma exit_after_kill_statuses:
  assumes k: "killable (Some inode0)"
    and kill: "killNode ext cfg c now (Some inode0) = Inr (Some inode)"
    and leaf: "\<forall>ch \<in> set (drop 2 (children inode0)). nignored ch"
    and sinks: "children (children inode0 ! 0) = []" "children (children inode0 ! 1) = []"
    and exit: "onExit cfg c code inode = Inr inode'"
  shows "nstatus inode = killed \<and> nstatus inode' = killed \<and>
         nstatus (children inode' ! 0) = killed \<and> nstatus (children inode' ! 1) = killed \<and>
         (\<forall>s. nstatus (exitSink code s) = (if nstatus s = running then finished else nstatus s))"
proof -
  from killNode_effective [OF k kill] obtain po out where po: "procOwn (info inode0) = Some po"
    and len: "2 \<le> length (children inode0)"
    and app: "appendLogToNode ext cfg now (killMessage c) (setStatus killed (children inode0 ! 0)) = Inr out"
    and pass: "notifyOwn cfg c (Node ((info inode0)\<lparr>procOwn := Some (po\<lparr>raw := None\<rparr>), status := killed\<rparr>)
        (out # setStatus killed (children inode0 ! 1) # drop 2 (children inode0))) = Inr inode"
    by blast
  let ?err = "setStatus killed (children inode0 ! 1)"
  let ?X = "Node ((info inode0)\<lparr>procOwn := Some (po\<lparr>raw := None\<rparr>), status := killed\<rparr>)
        (out # ?err # drop 2 (children inode0))"
  have outst: "nstatus out = killed"
    using appendLogToNode_frame(2) [OF app] by (simp add: setStatus_def)
  have outch: "children out = []"
    using appendLogToNode_frame(1) [OF app] sinks(1) by (simp add: setStatus_def)
  have "settledKilled ?X"
    using leaf outst by (simp add: settledKilled_def setStatus_def)
  from settledKilled_notifyOwn [OF this pass] have K: "settledKilled inode"
    and ch: "children inode = out # ?err # drop 2 (children inode0)" by simp_all
  let ?Y = "Node (info inode) (exitSink code (children inode ! 0) # exitSink code (children inode ! 1)
                                  # drop 2 (children inode))"
  have Ych: "children ?Y = exitSink code out # exitSink code ?err # drop 2 (children inode0)"
    using ch by simp
  have KY: "settledKilled ?Y"
    using K leaf outst unfolding ch
    by (simp add: settledKilled_def exitSink_def setStatus_def)
  from exit obtain m where m: "notifyChild cfg c 0 ?Y = Inr m"
    and e: "notifyChild cfg c 1 m = Inr inode'"
    by (auto simp: onExit_def split: sum.splits)
  have l0: "children (children ?Y ! 0) = []" unfolding Ych using outch by (simp add: exitSink_def)
  from notifyChild_settled [OF KY _ l0 m] have Km: "settledKilled m"
    and stm: "map nstatus (children m) = map nstatus (children ?Y)"
    and chm: "map children (children m) = map children (children ?Y)"
    and lm: "length (children m) = length (children ?Y)" by simp_all
  have i1: "1 < length (children m)" using lm by simp
  have "map children (children m) ! 1 = map children (children ?Y) ! 1" using chm by simp
  then have l1: "children (children m ! 1) = []"
    using i1 lm sinks(2) unfolding ch by (simp add: exitSink_def setStatus_def)
  from notifyChild_settled [OF Km i1 l1 e] have Ke: "settledKilled inode'"
    and ste: "map nstatus (children inode') = map nstatus (children m)"
    and le: "length (children inode') = length (children m)" by simp_all
  have sts: "map nstatus (children inode') = map nstatus (children ?Y)" using ste stm by simp
  have "map nstatus (children inode') ! 0 = map nstatus (children ?Y) ! 0"
    and "map nstatus (children inode') ! 1 = map nstatus (children ?Y) ! 1"
    using sts by simp_all
  then have s0: "nstatus (children inode' ! 0) = killed" and s1: "nstatus (children inode' ! 1) = killed"
    using le lm outst unfolding ch by (simp_all add: exitSink_def setStatus_def)
  show ?thesis
    using K Ke s0 s1 by (simp add: settledKilled_def exitSink_def)
qed

lemma committed_realLen:
  assumes cm: "committed ls" and i: "i < realLen ls"
  shows "timestamp (main (ls ! i)) \<noteq> None"
proof (cases "i + 1 < length ls")
  case True
  then have "i < length (butlast ls)" by simp
  then have "butlast ls ! i \<in> set (butlast ls)" by (rule nth_mem)
  moreover have "butlast ls ! i = ls ! i" using True by (simp add: nth_butlast)
  ultimately show ?thesis using cm by (simp add: committed_def)
next
  case False
  have le: "realLen ls \<le> length ls" by (simp add: realLen_def)
  have eq: "i = length ls - 1" using i le False by linarith
  have ne: "length ls \<noteq> 0" using i le by linarith
  show ?thesis
  proof (rule ccontr)
    assume "\<not> timestamp (main (ls ! i)) \<noteq> None"
    then have "timestamp (main (ls ! (length ls - 1))) = None" using eq by simp
    with ne have "realLen ls = length ls - 1" by (simp add: realLen_def)
    with i eq show False by simp
  qed
qed

lemma slice_subset: "x \<in> set (slice a n ls) \<Longrightarrow> n \<le> length ls \<Longrightarrow> \<exists>i < n. x = ls ! i"
proof -
  assume x: "x \<in> set (slice a n ls)" and n: "n \<le> length ls"
  then obtain k where k: "k < length (take (n - a) (drop a ls))" and xk: "x = take (n - a) (drop a ls) ! k"
    by (auto simp: slice_def in_set_conv_nth)
  then have "k < n - a" by simp
  with xk n have "x = ls ! (a + k)" by simp
  moreover have "a + k < n" using \<open>k < n - a\<close> by simp
  ultimately show ?thesis by blast
qed

lemma realLen_le: "realLen ls \<le> length ls"
  by (simp add: realLen_def)

lemma mergeChildren_stamped:
  "mergeChildren cs known cnt added lastOf = (cnt', added', lastOf') \<Longrightarrow>
   \<forall>x \<in> set added. timestamp (main x) \<noteq> None \<Longrightarrow>
   \<forall>ch \<in> set cs. committed (lines (nlog ch)) \<Longrightarrow>
   \<forall>x \<in> set added'. timestamp (main x) \<noteq> None"
proof (induction cs arbitrary: known cnt added lastOf)
  case Nil
  then show ?case by simp
next
  case (Cons child rest)
  let ?t = "pickTitle known (name (info child)) 0"
  let ?ls = "lines (nlog child)"
  let ?n = "realLen ?ls"
  from Cons.prems(3) have cm: "committed ?ls" and rest: "\<forall>ch \<in> set rest. committed (lines (nlog ch))"
    by simp_all
  show ?case
  proof (cases "0 < ?n")
    case False
    with Cons.prems(1) have r: "mergeChildren rest (?t # known) (cnt + lineCount (nlog child))
        added lastOf = (cnt', added', lastOf')"
      by (simp add: Let_def)
    from Cons.IH [OF r Cons.prems(2) rest] show ?thesis .
  next
    case True
    from True Cons.prems(1) obtain frm where r: "mergeChildren rest (?t # known)
        (cnt + lineCount (nlog child))
        (added @ map (\<lambda>e. \<lparr>title = ?t, main = main e\<rparr>) (slice frm ?n ?ls))
        (lastOf(?t \<mapsto> ?ls ! (?n - 1))) = (cnt', added', lastOf')"
      by (simp add: Let_def)
    have "\<forall>x \<in> set (slice frm ?n ?ls). timestamp (main x) \<noteq> None"
    proof
      fix x assume "x \<in> set (slice frm ?n ?ls)"
      from slice_subset [OF this realLen_le] obtain i where "i < ?n" "x = ?ls ! i" by blast
      with committed_realLen [OF cm] show "timestamp (main x) \<noteq> None" by simp
    qed
    then have "\<forall>x \<in> set (added @ map (\<lambda>e. \<lparr>title = ?t, main = main e\<rparr>) (slice frm ?n ?ls)).
        timestamp (main x) \<noteq> None"
      using Cons.prems(2) by auto
    from Cons.IH [OF r this rest] show ?thesis .
  qed
qed

lemma mergeLogs_succeeds:
  assumes "\<forall>ch \<in> set (children n). committed (lines (nlog ch))"
  shows "\<exists>n'. mergeLogs cfg n = Inr n'"
proof (cases "length (nonIgnored n) > 0")
  case False
  then show ?thesis by (simp add: mergeLogs_def)
next
  case True
  obtain cnt added lastOf where run:
    "mergeChildren (nonIgnored n) objectPrototypeKeys 0 [] (lastLineToTitle (nlog n)) = (cnt, added, lastOf)"
    by (cases "mergeChildren (nonIgnored n) objectPrototypeKeys 0 [] (lastLineToTitle (nlog n))") auto
  have "\<forall>ch \<in> set (nonIgnored n). committed (lines (nlog ch))"
    using assms by (simp add: nonIgnored_def)
  from mergeChildren_stamped [OF run _ this] have "\<forall>x \<in> set added. timestamp (main x) \<noteq> None"
    by simp
  then obtain sorted where "sortByTimestamp added = Inr sorted"
    by (auto simp: sortByTimestamp_def)
  with True run show ?thesis by (simp add: mergeLogs_def)
qed

lemma notifyOwn_succeeds:
  assumes "\<forall>ch \<in> set (children n). committed (lines (nlog ch))"
  shows "\<exists>n'. notifyOwn cfg c n = Inr n'"
proof -
  from mergeLogs_succeeds [OF assms, of cfg] obtain m where m: "mergeLogs cfg n = Inr m" by blast
  have "\<exists>m'. mergeLogs cfg (fst (checkSerial (recompute n))) = Inr m'"
  proof (cases "mergeLogs cfg (fst (checkSerial (recompute n)))")
    case (Inl e)
    with mergeLogs_cong [OF prep_logEq, of cfg n] have "mergeLogs cfg n = Inl e" by blast
    with m show ?thesis by simp
  next
    case (Inr m')
    then show ?thesis by blast
  qed
  then show ?thesis by (auto simp: notifyOwn_def notifyLog_def)
qed

lemma committed_append_one:
  "committed (pre @ [l]) \<Longrightarrow> timestamp (main l) \<noteq> None \<Longrightarrow> committed (pre @ [l, x])"
  by (simp add: committed_def butlast_append)

lemma committed_change_last: "committed (pre @ [l]) \<Longrightarrow> committed (pre @ [l'])"
  by (simp add: committed_def)

lemma appendAction_committed:
  assumes "committed (lines la)"
  shows "committed (lines (snd (appendAction ext cfg now a (sty, la))))"
proof -
  define la0 where "la0 = (if length (lines la) = 0 then pushLine cfg [] la else la)"
  have unfold: "appendAction ext cfg now a (sty, la) =
     (case a of
        ActPrint byte \<Rightarrow> (sty, pushContent (Print_tok byte) (checkTimestamp now la0))
      | ActControll ch \<Rightarrow>
          (if ch = 9 then (sty, pushContent (Print_tok 32) (checkTimestamp now la0))
           else if ch = 10
           then (sty, pushLine cfg [Style_tok (restoreSty ext sty)] (checkTimestamp now la0))
           else (sty, la0))
      | ActStyle ps \<Rightarrow>
          (applyActionToSty ext sty a,
           pushContent (Style_tok (restoreSty ext (applyActionToSty ext sty a))) la0))"
    unfolding appendAction_def Let_def fst_conv snd_conv la0_def by (rule refl)
  have "\<exists>pre l. lines la0 = pre @ [l] \<and> committed (pre @ [l])"
  proof (cases "lines la = []")
    case True
    let ?new = "\<lparr>title = [], main = \<lparr>timestamp = None, read = False,
                        line_id = int (lineCount la), content = []\<rparr>\<rparr>"
    have "lines la0 = [] @ [?new]" using True by (simp add: la0_def pushLine_def Let_def)
    moreover have "committed ([] @ [?new])" by (simp add: committed_def)
    ultimately show ?thesis by blast
  next
    case False
    then obtain pre l where "lines la = pre @ [l]" by (cases "lines la" rule: rev_cases) auto
    with assms False show ?thesis by (auto simp: la0_def)
  qed
  then obtain pre l where pl: "lines la0 = pre @ [l]" and cm: "committed (pre @ [l])" by blast
  from checkTimestamp_lines [OF pl, of now] obtain l1 where
    ct: "lines (checkTimestamp now la0) = pre @ [l1]" "timestamp (main l1) \<noteq> None" by blast
  have c1: "committed (pre @ [l1])" by (rule committed_change_last [OF cm])
  have pc: "\<And>tok. committed (lines (pushContent tok (checkTimestamp now la0)))"
    using pushContent_lines [OF ct(1)] committed_change_last [OF c1] by simp
  have pc0: "\<And>tok. committed (lines (pushContent tok la0))"
    using pushContent_lines [OF pl] committed_change_last [OF cm] by simp
  have push: "committed (lines (pushLine cfg [Style_tok (restoreSty ext sty)] (checkTimestamp now la0)))"
    using committed_append_one [OF c1 ct(2)] ct(1) by (simp add: pushLine_def Let_def)
  have c0: "committed (lines la0)" using pl cm by simp
  show ?thesis
    unfolding unfold using pc pc0 push c0 by (cases a) simp_all
qed

lemma fold_appendAction_committed:
  "committed (lines la) \<Longrightarrow>
   committed (lines (snd (fold (appendAction ext cfg now) acts (sty, la))))"
proof (induction acts arbitrary: sty la)
  case Nil
  then show ?case by simp
next
  case (Cons a acts)
  obtain sty1 la1 where s: "appendAction ext cfg now a (sty, la) = (sty1, la1)"
    by (cases "appendAction ext cfg now a (sty, la)")
  with appendAction_committed [OF Cons.prems, of ext cfg now a sty] have "committed (lines la1)"
    by simp
  from Cons.IH [OF this, of sty1] s show ?case by simp
qed

lemma appendLogToNode_committed:
  assumes run: "appendLogToNode ext cfg now bytes n = Inr n'" and cm: "committed (lines (nlog n))"
  shows "committed (lines (nlog n'))"
proof -
  from run obtain lo where lo: "logOwn (info n) = Some lo"
    by (auto simp: appendLogToNode_def split: option.splits)
  obtain parser' acts where d: "decodeAnsiBytes ext (currentParser lo) bytes = (parser', acts)"
    by (cases "decodeAnsiBytes ext (currentParser lo) bytes")
  obtain sty la where f: "fold (appendAction ext cfg now) acts (currentSty lo, nlog n) = (sty, la)"
    by (cases "fold (appendAction ext cfg now) acts (currentSty lo, nlog n)")
  from run lo d f have "nlog n' = la" by (auto simp: appendLogToNode_def)
  with fold_appendAction_committed [OF cm, of ext cfg now acts "currentSty lo"] f
  show ?thesis by simp
qed

lemma appendLogToNode_succeeds:
  "logOwn (info n) \<noteq> None \<Longrightarrow> \<exists>n'. appendLogToNode ext cfg now bytes n = Inr n'"
  by (auto simp: appendLogToNode_def split: option.splits prod.splits)

lemma wipeHistory_committed:
  assumes "committed (lines (nlog n))"
  shows "committed (lines (nlog (wipeHistory cfg c n)))"
proof (cases "length (lines (nlog n)) > headSize cfg + tailSize cfg")
  case False
  with assms show ?thesis by (simp add: wipeHistory_lines)
next
  case True
  let ?ls = "lines (nlog n)"
  let ?t = "drop (length ?ls - tailSize cfg) ?ls"
  have tne: "?t \<noteq> []" using True tailSize_pos [of cfg] by simp
  have bt: "butlast ?t = drop (length ?ls - tailSize cfg) (butlast ?ls)"
    by (rule butlast_drop)
  have "headSize cfg < length ?ls" using True by simp
  then have "take (headSize cfg) ?ls = take (headSize cfg) (butlast ?ls)"
    by (simp add: take_butlast)
  then have h: "set (take (headSize cfg) ?ls) \<subseteq> set (butlast ?ls)"
    by (simp add: set_take_subset)
  have t: "set (butlast ?t) \<subseteq> set (butlast ?ls)"
    unfolding bt by (rule set_drop_subset)
  have mk: "timestamp (main (historyDropped c)) \<noteq> None" by (simp add: historyDropped_def)
  have "butlast (take (headSize cfg) ?ls @ [historyDropped c] @ ?t) =
        take (headSize cfg) ?ls @ [historyDropped c] @ butlast ?t"
    using tne by (simp add: butlast_append)
  then show ?thesis
    using True assms h t mk unfolding committed_def wipeHistory_lines by auto
qed

lemma killNode_succeeds:
  assumes k: "killable (Some inode)" and len: "2 \<le> length (children inode)"
    and cm: "\<forall>ch \<in> set (children inode). committed (lines (nlog ch))"
    and lo: "logOwn (info (children inode ! 0)) \<noteq> None"
  shows "\<exists>inode'. killNode ext cfg c now (Some inode) = Inr (Some inode') \<and>
           (\<forall>ch \<in> set (children inode'). committed (lines (nlog ch)))"
proof -
  from k obtain po pid where po: "procOwn (info inode) = Some po" "raw po = Some pid"
    "nstatus inode = running"
    by (auto simp: killable_def split: option.splits)
  have "logOwn (info (setStatus killed (children inode ! 0))) \<noteq> None"
    using lo by (simp add: setStatus_def)
  from appendLogToNode_succeeds [OF this, of ext cfg now "killMessage c"] obtain out where
    app: "appendLogToNode ext cfg now (killMessage c) (setStatus killed (children inode ! 0)) = Inr out"
    by blast
  have c0: "children inode ! 0 \<in> set (children inode)" and c1: "children inode ! 1 \<in> set (children inode)"
    using len by (auto intro: nth_mem)
  have "committed (lines (nlog (setStatus killed (children inode ! 0))))"
    using cm c0 by (simp add: setStatus_def)
  from appendLogToNode_committed [OF app this] have cout: "committed (lines (nlog out))" .
  let ?X = "Node ((info inode)\<lparr>procOwn := Some (po\<lparr>raw := None\<rparr>), status := killed\<rparr>)
        (out # setStatus killed (children inode ! 1) # drop 2 (children inode))"
  have cX: "\<forall>ch \<in> set (children ?X). committed (lines (nlog ch))"
    using cout cm c1 by (auto simp: setStatus_def dest: in_set_dropD)
  from notifyOwn_succeeds [OF cX, of cfg c] obtain inode' where
    pass: "notifyOwn cfg c ?X = Inr inode'" by blast
  have lv: "map logView (children inode') = map logView (children ?X)"
    using notifyOwn_children [OF pass] prep_logEq [of ?X] by (simp add: logEq_def)
  have "\<forall>ch \<in> set (children inode'). committed (lines (nlog ch))"
  proof
    fix ch assume "ch \<in> set (children inode')"
    then have "logView ch \<in> set (map logView (children ?X))" unfolding lv [symmetric] by simp
    then obtain ch' where m: "ch' \<in> set (children ?X)" and v: "logView ch = logView ch'" by auto
    from m cX have "committed (lines (nlog ch'))" by blast
    moreover from v have "nlog ch = nlog ch'" by (simp add: logView_def)
    ultimately show "committed (lines (nlog ch))" by simp
  qed
  moreover have "killNode ext cfg c now (Some inode) = Inr (Some inode')"
    using po len app pass by (simp add: killNode_def)
  ultimately show ?thesis by blast
qed

lemma notifyChild_succeeds:
  assumes K: "settledKilled n" and i: "i < length (children n)"
    and leaf: "children (children n ! i) = []"
    and cm: "\<forall>ch \<in> set (children n). committed (lines (nlog ch))"
  shows "\<exists>n'. notifyChild cfg c i n = Inr n' \<and>
           (\<forall>ch \<in> set (children n'). committed (lines (nlog ch)))"
proof -
  have pre: "mergeLogs cfg (fst (checkSerial (recompute (children n ! i)))) = Inr (children n ! i)"
    by (rule childless_prepass [OF leaf])
  have same: "Node (info n) ((children n)[i := children n ! i]) = n" by simp
  from notifyOwn_succeeds [OF cm, of cfg c] obtain m where m: "notifyOwn cfg c n = Inr m" by blast
  from settledKilled_notifyOwn [OF K m] have cmm: "children m = children n" by simp
  let ?n' = "Node (info m) ((children n)[i := wipeHistory cfg c (children n ! i)])"
  have run: "notifyChild cfg c i n = Inr ?n'"
    using pre same m cmm by (simp add: notifyChild_def)
  have "\<forall>ch \<in> set (children ?n'). committed (lines (nlog ch))"
  proof
    fix ch assume "ch \<in> set (children ?n')"
    then have "ch = wipeHistory cfg c (children n ! i) \<or> ch \<in> set (children n)"
      using set_update_subset_insert [of "children n" i] by auto
    then show "committed (lines (nlog ch))"
      using cm i wipeHistory_committed [of "children n ! i" cfg c] by auto
  qed
  with run show ?thesis by blast
qed

text \<open>
  C8, amended. \<^verbatim>\<open>killNode\<close> returns without error and without change unless the node has
  a process identity, a live handle and status running. When it has (with its two sinks
  in front, every line before the last of each child's log committed, and a decoder that
  reads the message as a newline, style actions, the text, style actions and a newline),
  \<^verbatim>\<open>killNode\<close> returns with both sinks killed and with a committed line appended to the
  stdout sink whose printable content is \<^verbatim>\<open>[NOTIOS] MANUALLY KILLED\<close>; the node's status is
  killed when every child after the two sinks is ignored or killed.
\<close>

theorem C8_killNode:
  "(\<not> killable node \<longrightarrow> killNode ext cfg c now node = Inr node) \<and>
   (killable (Some inode) \<and> 2 \<le> length (children inode) \<and>
    (\<forall>ch \<in> set (children inode). committed (lines (nlog ch))) \<and>
    logOwn (info (children inode ! 0)) = Some lo \<and>
    decodeAnsiBytes ext (currentParser lo) (killMessage c) =
      (parser', [ActControll 10] @ map ActStyle ss1
                 @ map ActPrint (bytes_of ''[NOTIOS] MANUALLY KILLED'')
                 @ map ActStyle ss2 @ [ActControll 10]) \<longrightarrow>
      (\<exists>inode'. killNode ext cfg c now (Some inode) = Inr (Some inode') \<and>
         nstatus (children inode' ! 0) = killed \<and> nstatus (children inode' ! 1) = killed \<and>
         (\<exists>l \<in> set (lines (nlog (children inode' ! 0))).
             timestamp (main l) \<noteq> None \<and>
             printable (content (main l)) = bytes_of ''[NOTIOS] MANUALLY KILLED'') \<and>
         ((\<forall>ch \<in> set (drop 2 (children inode)). nignored ch \<or> nstatus ch = killed) \<longrightarrow>
             nstatus inode' = killed)))"
proof (intro conjI impI)
  assume "\<not> killable node"
  then show "killNode ext cfg c now node = Inr node" by (rule killNode_idle)
next
  assume a: "killable (Some inode) \<and> 2 \<le> length (children inode) \<and>
    (\<forall>ch \<in> set (children inode). committed (lines (nlog ch))) \<and>
    logOwn (info (children inode ! 0)) = Some lo \<and>
    decodeAnsiBytes ext (currentParser lo) (killMessage c) =
      (parser', [ActControll 10] @ map ActStyle ss1
                 @ map ActPrint (bytes_of ''[NOTIOS] MANUALLY KILLED'')
                 @ map ActStyle ss2 @ [ActControll 10])"
  then have k: "killable (Some inode)" and len: "2 \<le> length (children inode)"
    and cm: "\<forall>ch \<in> set (children inode). committed (lines (nlog ch))"
    and lo: "logOwn (info (children inode ! 0)) = Some lo"
    and dec: "decodeAnsiBytes ext (currentParser lo) (killMessage c) =
      (parser', [ActControll 10] @ map ActStyle ss1
                 @ map ActPrint (bytes_of ''[NOTIOS] MANUALLY KILLED'')
                 @ map ActStyle ss2 @ [ActControll 10])" by simp_all
  from lo have lo': "logOwn (info (children inode ! 0)) \<noteq> None" by simp
  from killNode_succeeds [OF k len cm lo', of ext cfg c now] obtain inode' where
    r: "killNode ext cfg c now (Some inode) = Inr (Some inode')" by blast
  from killNode_effect [of node ext cfg c now inode lo parser' ss1 ss2 inode'] k lo dec r
  have "nstatus (children inode' ! 0) = killed \<and> nstatus (children inode' ! 1) = killed \<and>
      (\<exists>l \<in> set (lines (nlog (children inode' ! 0))).
          timestamp (main l) \<noteq> None \<and>
          printable (content (main l)) = bytes_of ''[NOTIOS] MANUALLY KILLED'') \<and>
      ((\<forall>ch \<in> set (drop 2 (children inode)). nignored ch \<or> nstatus ch = killed) \<longrightarrow>
          nstatus inode' = killed)"
    by blast
  with r show "\<exists>inode'. killNode ext cfg c now (Some inode) = Inr (Some inode') \<and>
         nstatus (children inode' ! 0) = killed \<and> nstatus (children inode' ! 1) = killed \<and>
         (\<exists>l \<in> set (lines (nlog (children inode' ! 0))).
             timestamp (main l) \<noteq> None \<and>
             printable (content (main l)) = bytes_of ''[NOTIOS] MANUALLY KILLED'') \<and>
         ((\<forall>ch \<in> set (drop 2 (children inode)). nignored ch \<or> nstatus ch = killed) \<longrightarrow>
             nstatus inode' = killed)"
    by blast
qed

theorem C8_killNode_witness:
  "killable (Some exLeaf) \<and>
   (case killNode plainAnsi exCfg False 7 (Some exLeaf) of
      Inr (Some n) \<Rightarrow>
        nstatus n = killed \<and> nstatus (children n ! 0) = killed \<and>
        nstatus (children n ! 1) = killed \<and>
        (\<exists>l \<in> set (lines (nlog (children n ! 0))).
            timestamp (main l) \<noteq> None \<and>
            printable (content (main l)) = bytes_of ''[NOTIOS] MANUALLY KILLED'')
    | _ \<Rightarrow> False) \<and>
   \<not> killable (Some exDone) \<and>
   killNode plainAnsi exCfg False 7 (Some exDone) = Inr (Some exDone)"
proof -
  have k: "killable (Some exLeaf)" by code_simp
  have len: "2 \<le> length (children exLeaf)" by (simp add: exLeaf_def procNode_def)
  have cm: "\<forall>ch \<in> set (children exLeaf). committed (lines (nlog ch))"
    by (simp add: exLeaf_def procNode_def exSink_def committed_def)
  have lo: "logOwn (info (children exLeaf ! 0)) = Some createEmptyLogOwn"
    by (simp add: exLeaf_def procNode_def exSink_def createEmptyLogOwn_def)
  have dec: "decodeAnsiBytes plainAnsi (currentParser createEmptyLogOwn) (killMessage False) =
      ([], [ActControll 10] @ map ActStyle []
             @ map ActPrint (bytes_of ''[NOTIOS] MANUALLY KILLED'')
             @ map ActStyle [] @ [ActControll 10])"
    by code_simp
  have rest: "\<forall>ch \<in> set (drop 2 (children exLeaf)). nignored ch \<or> nstatus ch = killed"
    by (simp add: exLeaf_def procNode_def)
  have idle: "\<not> killable (Some exDone)" by code_simp
  from C8_killNode [of "Some exDone" plainAnsi exCfg False 7 exLeaf createEmptyLogOwn "[]" "[]" "[]"]
    k len cm lo dec rest idle
  obtain n where "killNode plainAnsi exCfg False 7 (Some exLeaf) = Inr (Some n)"
    and "nstatus n = killed" and "nstatus (children n ! 0) = killed"
    and "nstatus (children n ! 1) = killed"
    and "\<exists>l \<in> set (lines (nlog (children n ! 0))).
            timestamp (main l) \<noteq> None \<and>
            printable (content (main l)) = bytes_of ''[NOTIOS] MANUALLY KILLED''"
    and "killNode plainAnsi exCfg False 7 (Some exDone) = Inr (Some exDone)"
    by blast
  with k idle show ?thesis by simp
qed

text \<open>
  C9. For a leaf (a process node whose children after the two childless sinks are
  ignored) \<^verbatim>\<open>killNode\<close> returns with the node killed, and the exit listener that runs
  afterwards returns with the node and its two sinks still killed: the listener sets a
  sink to finished only when the sink is running, and the recomputation keeps the node
  killed.
\<close>

theorem C9_exit_after_kill:
  assumes k: "killable (Some inode0)" and len: "2 \<le> length (children inode0)"
    and cm: "\<forall>ch \<in> set (children inode0). committed (lines (nlog ch))"
    and lo: "logOwn (info (children inode0 ! 0)) \<noteq> None"
    and leaf: "\<forall>ch \<in> set (drop 2 (children inode0)). nignored ch"
    and sinks: "children (children inode0 ! 0) = []" "children (children inode0 ! 1) = []"
  shows "\<exists>inode inode'.
           killNode ext cfg c now (Some inode0) = Inr (Some inode) \<and>
           onExit cfg c code inode = Inr inode' \<and>
           nstatus inode = killed \<and> nstatus inode' = killed \<and>
           nstatus (children inode' ! 0) = killed \<and> nstatus (children inode' ! 1) = killed \<and>
           (\<forall>s. nstatus (exitSink code s) = (if nstatus s = running then finished else nstatus s))"
proof -
  from killNode_succeeds [OF k len cm lo, of ext cfg c now] obtain inode where
    kill: "killNode ext cfg c now (Some inode0) = Inr (Some inode)"
    and ci: "\<forall>ch \<in> set (children inode). committed (lines (nlog ch))" by blast
  from killNode_effective [OF k kill] obtain po out where po: "procOwn (info inode0) = Some po"
    and app: "appendLogToNode ext cfg now (killMessage c) (setStatus killed (children inode0 ! 0)) = Inr out"
    and pass: "notifyOwn cfg c (Node ((info inode0)\<lparr>procOwn := Some (po\<lparr>raw := None\<rparr>), status := killed\<rparr>)
        (out # setStatus killed (children inode0 ! 1) # drop 2 (children inode0))) = Inr inode"
    by blast
  let ?err = "setStatus killed (children inode0 ! 1)"
  let ?X = "Node ((info inode0)\<lparr>procOwn := Some (po\<lparr>raw := None\<rparr>), status := killed\<rparr>)
        (out # ?err # drop 2 (children inode0))"
  have outst: "nstatus out = killed"
    using appendLogToNode_frame(2) [OF app] by (simp add: setStatus_def)
  have outch: "children out = []"
    using appendLogToNode_frame(1) [OF app] sinks(1) by (simp add: setStatus_def)
  have "settledKilled ?X"
    using leaf outst by (simp add: settledKilled_def setStatus_def)
  from settledKilled_notifyOwn [OF this pass] have K: "settledKilled inode"
    and ch: "children inode = out # ?err # drop 2 (children inode0)" by simp_all
  let ?Y = "Node (info inode) (exitSink code (children inode ! 0) # exitSink code (children inode ! 1)
                                  # drop 2 (children inode))"
  have Ych: "children ?Y = exitSink code out # exitSink code ?err # drop 2 (children inode0)"
    using ch by simp
  have KY: "settledKilled ?Y"
    using K leaf outst unfolding ch
    by (simp add: settledKilled_def exitSink_def setStatus_def)
  have cY: "\<forall>ch \<in> set (children ?Y). committed (lines (nlog ch))"
    using ci unfolding ch by (simp add: exitSink_def)
  have l0: "children (children ?Y ! 0) = []" unfolding Ych using outch by (simp add: exitSink_def)
  from notifyChild_succeeds [OF KY _ l0 cY, of cfg c] obtain m where
    m: "notifyChild cfg c 0 ?Y = Inr m"
    and cmm: "\<forall>ch \<in> set (children m). committed (lines (nlog ch))" by auto
  from notifyChild_settled [OF KY _ l0 m] have Km: "settledKilled m"
    and chm: "map children (children m) = map children (children ?Y)"
    and lm: "length (children m) = length (children ?Y)" by simp_all
  have i1: "1 < length (children m)" using lm by simp
  have "map children (children m) ! 1 = map children (children ?Y) ! 1" using chm by simp
  then have l1: "children (children m ! 1) = []"
    using i1 lm sinks(2) unfolding ch by (simp add: exitSink_def setStatus_def)
  from notifyChild_succeeds [OF Km i1 l1 cmm, of cfg c] obtain inode' where
    e: "notifyChild cfg c 1 m = Inr inode'" by blast
  have exit: "onExit cfg c code inode = Inr inode'"
    using m e by (simp add: onExit_def)
  from exit_after_kill_statuses [OF k kill leaf sinks exit] kill exit show ?thesis by blast
qed

theorem C9_exit_after_kill_witness:
  "killable (Some exLeaf) \<and>
   (case killNode plainAnsi exCfg False 7 (Some exLeaf) of
      Inr (Some n) \<Rightarrow>
        (case onExit exCfg False (Num 143) n of
           Inr n' \<Rightarrow> nstatus n' = killed \<and> nstatus (children n' ! 0) = killed \<and>
                     nstatus (children n' ! 1) = killed
         | Inl e \<Rightarrow> False)
    | _ \<Rightarrow> False)"
proof -
  have k: "killable (Some exLeaf)" by code_simp
  have len: "2 \<le> length (children exLeaf)" by (simp add: exLeaf_def procNode_def)
  have cm: "\<forall>ch \<in> set (children exLeaf). committed (lines (nlog ch))"
    by (simp add: exLeaf_def procNode_def exSink_def committed_def)
  have lo: "logOwn (info (children exLeaf ! 0)) \<noteq> None"
    by (simp add: exLeaf_def procNode_def exSink_def)
  have leaf: "\<forall>ch \<in> set (drop 2 (children exLeaf)). nignored ch"
    by (simp add: exLeaf_def procNode_def)
  have s0: "children (children exLeaf ! 0) = []" and s1: "children (children exLeaf ! 1) = []"
    by (simp_all add: exLeaf_def procNode_def exSink_def)
  from C9_exit_after_kill [OF k len cm lo leaf s0 s1, of plainAnsi exCfg False 7 "Num 143"]
  obtain n n' where "killNode plainAnsi exCfg False 7 (Some exLeaf) = Inr (Some n)"
    and "onExit exCfg False (Num 143) n = Inr n'"
    and "nstatus n' = killed" and "nstatus (children n' ! 0) = killed"
    and "nstatus (children n' ! 1) = killed" by blast
  with k show ?thesis by simp
qed

subsection \<open>Marking a node as read\<close>

text \<open>
  C10. With \<^verbatim>\<open>enableUnreadMarker\<close> false, \<^verbatim>\<open>markNodeAsRead\<close> returns at once for every
  argument, null included: the tree is as it was, with its read flags and unread sets,
  and no notify pass is started, so no listener is invoked.
\<close>

theorem C10_markNodeAsRead_disabled:
  "\<not> enableUnreadMarker cfg \<Longrightarrow> markNodeAsRead cfg c node = Inr (node, 0)"
  by (simp add: markNodeAsRead_def)

theorem C10_markNodeAsRead_disabled_witness:
  "\<not> enableUnreadMarker (exCfg\<lparr>enableUnreadMarker := False\<rparr>) \<and>
   markNodeAsRead (exCfg\<lparr>enableUnreadMarker := False\<rparr>) True (Some exUnread) =
     Inr (Some exUnread, 0) \<and>
   markNodeAsRead (exCfg\<lparr>enableUnreadMarker := False\<rparr>) True None = Inr (None, 0)"
  using C10_markNodeAsRead_disabled [of "exCfg\<lparr>enableUnreadMarker := False\<rparr>" True "Some exUnread"]
    C10_markNodeAsRead_disabled [of "exCfg\<lparr>enableUnreadMarker := False\<rparr>" True None]
  by (simp add: exCfg_def)

subsection \<open>Construction of the keymapping trie\<close>


lemma bound_Nil [simp]: "bound t [] = kaction t"
  by (simp add: bound_def)













lemmas key_eval = keyG_def exGG_def exZero_def seqEntries_def sortedSeqEntries_def
  constructKeymapping_def flag_def Let_def




subsection \<open>Matching\<close>

text \<open>
  C7. On a keystroke the handler looks up the token at the current position. With no
  child there, the position becomes the root and nothing fires, whatever the root holds
  for that token. With a child that has an action, that action fires and the position
  becomes the root. With a child without action, the child is the new position.
\<close>

theorem C7_matcher_step:
  "(map_of (kchildren cur) (keyToken names input key) = None \<longrightarrow>
      onInput names False root cur input key = (root, None)) \<and>
   (map_of (kchildren cur) (keyToken names input key) = Some n \<and> kaction n = Some a \<longrightarrow>
      onInput names False root cur input key = (root, Some a)) \<and>
   (map_of (kchildren cur) (keyToken names input key) = Some n \<and> kaction n = None \<longrightarrow>
      onInput names False root cur input key = (n, None))"
  by (simp add: onInput_def matchKeymapping_def)

lemmas match_eval = onInput_def matchKeymapping_def keyToken_def wheelPattern_def startsWith_def
  endsWith_def toLowerCase_def plainKey_def exSpecialKeyNames_def exTrie_def exMid_def exTop_def
  keyX_def flag_def

theorem C7_matcher_step_witness:
  "constructKeymapping exTop = Inr exTrie \<and>
   runKeys exSpecialKeyNames exTrie exTrie [(''g'', plainKey), (''x'', plainKey)] = (exTrie, []) \<and>
   runKeys exSpecialKeyNames exTrie exTrie [(''g'', plainKey), (''g'', plainKey)] =
     (exTrie, [''top'']) \<and>
   onInput exSpecialKeyNames False exTrie exMid ''x'' plainKey = (exTrie, None) \<and>
   onInput exSpecialKeyNames False exTrie exMid ''g'' plainKey = (exTrie, Some ''top'') \<and>
   onInput exSpecialKeyNames False exTrie exTrie ''g'' plainKey = (exMid, None)"
proof -
  have miss: "map_of (kchildren exMid) (keyToken exSpecialKeyNames ''x'' plainKey) = None"
    by (simp add: match_eval)
  have hit: "map_of (kchildren exMid) (keyToken exSpecialKeyNames ''g'' plainKey) =
      Some (KeymappingNode [] (Some ''top''))"
    by (simp add: match_eval)
  have step: "map_of (kchildren exTrie) (keyToken exSpecialKeyNames ''g'' plainKey) = Some exMid"
    by (simp add: match_eval)
  have a: "onInput exSpecialKeyNames False exTrie exMid ''x'' plainKey = (exTrie, None)"
    using C7_matcher_step [of exMid exSpecialKeyNames "''x''" plainKey exTrie] miss by simp
  have b: "onInput exSpecialKeyNames False exTrie exMid ''g'' plainKey = (exTrie, Some ''top'')"
    using C7_matcher_step [of exMid exSpecialKeyNames "''g''" plainKey exTrie
        "KeymappingNode [] (Some ''top'')" "''top''"] hit by simp
  have c: "onInput exSpecialKeyNames False exTrie exTrie ''g'' plainKey = (exMid, None)"
    using C7_matcher_step [of exTrie exSpecialKeyNames "''g''" plainKey exTrie exMid] step
    by (simp add: exMid_def)
  have t: "constructKeymapping exTop = Inr exTrie"
    by (simp add: key_eval match_eval)
  have r1: "runKeys exSpecialKeyNames exTrie exTrie [(''g'', plainKey), (''x'', plainKey)] =
      (exTrie, [])"
    using a c by simp
  have r2: "runKeys exSpecialKeyNames exTrie exTrie [(''g'', plainKey), (''g'', plainKey)] =
      (exTrie, [''top''])"
    using b c by simp
  from t r1 r2 a b c show ?thesis by simp
qed

end
